theory Spec2Isabelle
  imports Main "HOL-Library.Word" "HOL-Library.Sublist" "HOL-Library.Multiset"
begin

section \<open>JavaScript strings and values\<close>

text \<open>
  A JavaScript string is a sequence of UTF-16 code units; \<open>length\<close>, \<open>slice\<close> and
  \<open>startsWith\<close> of \<open>src/input.ts\<close> all count code units.  ASCII literals of the source
  are written \<open>js ''...''\<close>; the backslash and the bracket glyphs are given by their
  code unit.
\<close>

type_synonym code_unit = "16 word"
type_synonym jsstring = "code_unit list"

definition js :: "string \<Rightarrow> jsstring" where
  "js s = map of_char s"

definition backslash :: code_unit where
  "backslash = 0x5C"

text \<open>
  The values a replacement can take in the source: a string, \<open>undefined\<close> (the early
  return of \<open>findReplacement\<close> and a missing property), \<open>null\<close>, or the value of a
  property that a table inherits from \<open>Object.prototype\<close>, named by its key: a built-in
  function, or for the key \<open>__proto__\<close> the prototype object itself.
\<close>

datatype jsval = Undefined | Null | Str jsstring | Inherited jsstring

text \<open>
  The truthiness of \<open>if (v)\<close>: the empty string is falsy, like \<open>null\<close> and \<open>undefined\<close>;
  functions and objects are truthy.
\<close>

fun truthy :: "jsval \<Rightarrow> bool" where
  "truthy (Str s) = (s \<noteq> [])"
| "truthy Null = False"
| "truthy Undefined = False"
| "truthy (Inherited n) = True"

text \<open>
  The string a value stands for where the source uses it as one (\<open>ToString\<close>, as in
  \<open>prefixReplacement + ...\<close>).  A built-in function gives its source text as the engine
  of the editor prints it, the prototype object gives \<open>[object Object]\<close>; the property
  \<open>constructor\<close> is the function \<open>Object\<close>.
\<close>

fun the_string :: "jsval \<Rightarrow> jsstring" where
  "the_string (Str s) = s"
| "the_string Null = js ''null''"
| "the_string Undefined = js ''undefined''"
| "the_string (Inherited n) =
     (if n = js ''__proto__'' then js ''[object Object]''
      else js ''function '' @ (if n = js ''constructor'' then js ''Object'' else n)
           @ js ''() { [native code] }'')"

definition startsWith :: "jsstring \<Rightarrow> jsstring \<Rightarrow> bool" where
  "startsWith s p = (take (length p) s = p)"

section \<open>Translation tables\<close>

text \<open>
  \<open>interface Translations { [abbrev: string]: string; }\<close>: an object used as a
  dictionary.  It is modelled by its own properties, in the order they were created;
  the keys of an object are distinct.  Every table of the source is an ordinary object,
  whose prototype is \<open>Object.prototype\<close>: the read \<open>T[k]\<close> gives the own property \<open>k\<close> if
  there is one, and otherwise the property \<open>k\<close> of the prototype if it has one.  None of
  the properties of the prototype is enumerable.
\<close>

type_synonym Translations = "(jsstring \<times> jsstring) list"

definition inherited_names :: "jsstring list" where
  "inherited_names =
     [js ''constructor'', js ''__defineGetter__'', js ''__defineSetter__'',
      js ''hasOwnProperty'', js ''__lookupGetter__'', js ''__lookupSetter__'',
      js ''isPrototypeOf'', js ''propertyIsEnumerable'', js ''toString'', js ''valueOf'',
      js ''__proto__'', js ''toLocaleString'']"

definition get :: "Translations \<Rightarrow> jsstring \<Rightarrow> jsval" where
  "get T k =
     (case map_of T k of
        Some v \<Rightarrow> Str v
      | None \<Rightarrow> if k \<in> set inherited_names then Inherited k else Undefined)"

text \<open>
  \<open>for (const k in T)\<close> enumerates the keys that are array indices (canonical decimal
  numerals below \<open>2^32 - 1\<close>) in ascending numeric order first, then the other keys in
  creation order.
\<close>

definition is_digit :: "code_unit \<Rightarrow> bool" where
  "is_digit c = (0x30 \<le> c \<and> c \<le> 0x39)"

definition to_number :: "jsstring \<Rightarrow> nat" where
  "to_number k = foldl (\<lambda>n c. 10 * n + (unat c - 48)) 0 k"

definition is_array_index :: "jsstring \<Rightarrow> bool" where
  "is_array_index k =
     (k \<noteq> [] \<and> list_all is_digit k \<and> (length k = 1 \<or> take 1 k \<noteq> js ''0'')
      \<and> to_number k < 2 ^ 32 - 1)"

definition for_in_keys :: "Translations \<Rightarrow> jsstring list" where
  "for_in_keys T =
     sort_key to_number (filter is_array_index (map fst T))
     @ filter (\<lambda>k. \<not> is_array_index k) (map fst T)"

text \<open>
  Defining the own property \<open>k\<close> of an object: an existing property keeps its place, a
  new one is created last.  The spread \<open>{ ...a, ...b }\<close> defines, on a new object, the
  own properties of each source in its enumeration order.
\<close>

fun obj_define :: "Translations \<Rightarrow> jsstring \<Rightarrow> jsstring \<Rightarrow> Translations" where
  "obj_define [] k v = [(k, v)]"
| "obj_define ((k', v') # T) k v =
     (if k' = k then (k, v) # T else (k', v') # obj_define T k v)"

definition spread :: "Translations \<Rightarrow> Translations \<Rightarrow> Translations" where
  "spread a b =
     foldl (\<lambda>T k. obj_define T k (the_string (get b k)))
       (foldl (\<lambda>T k. obj_define T k (the_string (get a k))) [] (for_in_keys a))
       (for_in_keys b)"

text \<open>
  \<open>Object.assign(target, source)\<close> assigns instead (\<open>target[k] = v\<close>).  That is the same
  as defining the property, except for the key \<open>__proto__\<close> on a target without such an
  own property: the assignment reaches the setter of the prototype, which ignores a
  string, and no property is created.
\<close>

definition obj_put :: "Translations \<Rightarrow> jsstring \<Rightarrow> jsstring \<Rightarrow> Translations" where
  "obj_put T k v =
     (if k = js ''__proto__'' \<and> map_of T k = None then T else obj_define T k v)"

definition assign :: "Translations \<Rightarrow> Translations \<Rightarrow> Translations" where
  "assign target source =
     foldl (\<lambda>T k. obj_put T k (the_string (get source k))) target (for_in_keys source)"

section \<open>The abbreviator: \<open>LeanInputAbbreviator\<close>\<close>

record abbreviator =
  leader :: jsstring
  translations' :: Translations
  customTranslations :: Translations
  allTranslations :: Translations

text \<open>
  The constructor copies the base table and merges it with the custom translations;
  the configuration handler recomputes the merged table in the same way.
\<close>

definition new_abbreviator :: "jsstring \<Rightarrow> Translations \<Rightarrow> Translations \<Rightarrow> abbreviator" where
  "new_abbreviator ld custom base =
     (let ts = assign [] base
      in \<lparr> leader = ld, translations' = ts, customTranslations = custom,
           allTranslations = spread ts custom \<rparr>)"

subsection \<open>\<open>findReplacement\<close>\<close>

text \<open>
  The loop over the table: \<open>shortestExtension\<close> starts as \<open>null\<close> and is replaced by
  a key that starts with the typed abbreviation when it is still falsy or the key is
  strictly shorter.
\<close>

definition shortestExtension_step :: "jsstring \<Rightarrow> jsval \<Rightarrow> jsstring \<Rightarrow> jsval" where
  "shortestExtension_step typedAbbrev se abbrev =
     (if startsWith abbrev typedAbbrev
         \<and> (\<not> truthy se \<or> length abbrev < length (the_string se))
      then Str abbrev else se)"

definition shortestExtension :: "Translations \<Rightarrow> jsstring \<Rightarrow> jsval" where
  "shortestExtension T typedAbbrev =
     foldl (shortestExtension_step typedAbbrev) Null (for_in_keys T)"

function findReplacement :: "Translations \<Rightarrow> jsstring \<Rightarrow> jsval" where
  "findReplacement T typedAbbrev =
     (if typedAbbrev = [] then Undefined
      else if truthy (get T typedAbbrev) then get T typedAbbrev
      else if truthy (shortestExtension T typedAbbrev)
        then get T (the_string (shortestExtension T typedAbbrev))
      else if typedAbbrev \<noteq> [] then
        (if truthy (findReplacement T (take (length typedAbbrev - 1) typedAbbrev))
         then Str (the_string (findReplacement T (take (length typedAbbrev - 1) typedAbbrev))
                   @ drop (length typedAbbrev - 1) typedAbbrev)
         else Null)
      else Null)"
  by pat_completeness auto
termination
  by (relation "measure (\<lambda>(T, typedAbbrev). length typedAbbrev)") auto

declare findReplacement.simps [simp del]

text \<open>
  The same function with its recursion left open: \<open>None\<close> stands for a call that does
  not return.
\<close>

partial_function (option) findReplacement_run :: "Translations \<Rightarrow> jsstring \<Rightarrow> jsval option" where
  "findReplacement_run T typedAbbrev =
     (if typedAbbrev = [] then Some Undefined
      else if truthy (get T typedAbbrev) then Some (get T typedAbbrev)
      else if truthy (shortestExtension T typedAbbrev)
        then Some (get T (the_string (shortestExtension T typedAbbrev)))
      else if typedAbbrev \<noteq> [] then
        Option.bind (findReplacement_run T (take (length typedAbbrev - 1) typedAbbrev))
          (\<lambda>prefixReplacement.
             if truthy prefixReplacement
             then Some (Str (the_string prefixReplacement
                             @ drop (length typedAbbrev - 1) typedAbbrev))
             else Some Null)
      else Some Null)"

section \<open>The hover provider: \<open>LeanInputExplanationHover\<close>\<close>

record hover_provider =
  hover_leader :: jsstring
  hover_customTranslations :: Translations
  hover_translations :: Translations

text \<open>
  \<open>getAbbrevations\<close>: the keys of the custom translations whose value is the symbol,
  then the keys of the base table whose value is the symbol, skipping every key for
  which \<open>customTranslations[k]\<close> is truthy.
\<close>

definition getAbbrevations :: "hover_provider \<Rightarrow> jsstring \<Rightarrow> jsstring list" where
  "getAbbrevations hp symbol =
     filter (\<lambda>k. get (hover_customTranslations hp) k = Str symbol)
       (for_in_keys (hover_customTranslations hp))
     @ filter (\<lambda>k. \<not> truthy (get (hover_customTranslations hp) k)
                 \<and> get (hover_translations hp) k = Str symbol)
         (for_in_keys (hover_translations hp))"

section \<open>The editor: positions, ranges, selections, text\<close>

record Position =
  line :: nat
  character :: nat

record Range =
  start :: Position
  end' :: Position

record Selection =
  sel_anchor :: Position
  sel_active :: Position

definition translate :: "Position \<Rightarrow> nat \<Rightarrow> Position" where
  "translate p n = p\<lparr>character := character p + n\<rparr>"

definition isEmpty :: "Selection \<Rightarrow> bool" where
  "isEmpty s = (sel_anchor s = sel_active s)"

definition isSingleLine :: "Selection \<Rightarrow> bool" where
  "isSingleLine s = (line (sel_anchor s) = line (sel_active s))"

text \<open>
  \<open>new Selection(pos, pos)\<close> at line \<open>l\<close> and column \<open>c\<close>, and
  \<open>new Range(l, c1, l, c2)\<close>.
\<close>

definition cursor :: "nat \<Rightarrow> nat \<Rightarrow> Selection" where
  "cursor l c = \<lparr> sel_anchor = \<lparr> line = l, character = c \<rparr>,
                  sel_active = \<lparr> line = l, character = c \<rparr> \<rparr>"

definition line_range :: "nat \<Rightarrow> nat \<Rightarrow> nat \<Rightarrow> Range" where
  "line_range l c1 c2 = \<lparr> start = \<lparr> line = l, character = c1 \<rparr>,
                          end' = \<lparr> line = l, character = c2 \<rparr> \<rparr>"

text \<open>\<open>rangeSize\<close> subtracts two numbers; the difference is not truncated.\<close>

definition rangeSize :: "Range \<Rightarrow> int" where
  "rangeSize r = int (character (end' r)) - int (character (start r))"

text \<open>
  The document is its list of lines.  The source reads text only from ranges inside one
  line: \<open>getText doc l c1 c2\<close> is \<open>document.getText(new Range(l, c1, l, c2))\<close>.  The
  host validates the range first: columns beyond the end of the line are cut to it, and
  a line beyond the last one gives the empty range at the end of the document.
\<close>

definition getText :: "jsstring list \<Rightarrow> nat \<Rightarrow> nat \<Rightarrow> nat \<Rightarrow> jsstring" where
  "getText doc l c1 c2 = (if l < length doc then drop c1 (take c2 (doc ! l)) else [])"

text \<open>
  The white space of the regular expression classes \<open>\s\<close> and \<open>\S\<close>: tab, line feed,
  vertical tab, form feed, carriage return, space, no-break space, the other space
  separators, the line and paragraph separators and the byte order mark.
\<close>

definition is_space :: "code_unit \<Rightarrow> bool" where
  "is_space c =
     (c \<in> {0x09, 0x0A, 0x0B, 0x0C, 0x0D, 0x20, 0xA0, 0x1680, 0x2028, 0x2029, 0x202F,
            0x205F, 0x3000, 0xFEFF}
      \<or> (0x2000 \<le> c \<and> c \<le> 0x200A))"

text \<open>
  \<open>/\\\S*?$/.exec(s)\<close>: the match starts at the leftmost backslash that is followed
  by nothing but non-space characters up to the end of the string; the matched text
  runs from that backslash to the end.
\<close>

fun exec_span :: "jsstring \<Rightarrow> jsstring option" where
  "exec_span [] = None"
| "exec_span (c # cs) =
     (if c = backslash \<and> list_all (\<lambda>d. \<not> is_space d) cs then Some (c # cs)
      else exec_span cs)"

text \<open>
  \<open>change.text.match(/^\s+|[^{(]?[)}\<rangle>]$/)\<close>, the last character of the class being
  the right angle bracket U+27E9: the text starts with a space character, or it ends
  with one of the three closing brackets (the character before it is optional).
\<close>

definition completes :: "jsstring \<Rightarrow> bool" where
  "completes t =
     (case t of [] \<Rightarrow> False
      | c # cs \<Rightarrow> is_space c \<or> last (c # cs) \<in> {0x29, 0x7D, 0x27E9})"

section \<open>The handler of one editor: \<open>TextEditorAbbrevHandler\<close>\<close>

record RangeInfo =
  ri_index :: nat
  ri_selection :: Selection
  ri_range :: Range
  ri_text :: jsstring

text \<open>
  An edit request is the list of the \<open>builder.replace(range, text)\<close> calls of one
  \<open>editor.edit\<close>.  \<open>update\<close> calls \<open>editor.edit\<close> itself (\<open>Edit\<close>); \<open>convert\<close> only sets a
  timer with \<open>setTimeout(..., 0)\<close> whose callback will call it (\<open>Timer\<close>), so its request
  reaches the editor after the handler has returned, later than an \<open>Edit\<close> of the same
  call.
\<close>

datatype request = Edit "(Range \<times> jsval) list" | Timer "(Range \<times> jsval) list"

text \<open>
  The state a handler works on: its flag \<open>active\<close>, the document and the selections of
  its editor, the decorations last set with \<open>setDecorations\<close>, and the requests it has
  made, in the order of the statements that made them.  The host applies a request
  later; the handler never reads it back.
\<close>

record handler =
  active :: bool
  document :: "jsstring list"
  selections :: "Selection list"
  decorations :: "Range list"
  edits :: "request list"

record TextDocumentContentChangeEvent =
  change_text :: jsstring

record TextDocumentChangeEvent =
  contentChanges :: "TextDocumentContentChangeEvent list"

text \<open>The host's \<open>Position\<close> constructor throws on a negative column.\<close>

datatype error = IllegalArgument

definition deactivate :: "handler \<Rightarrow> handler" where
  "deactivate h = h\<lparr>active := False, decorations := []\<rparr>"

text \<open>The body of the loop of \<open>getRangeInfo\<close> for the selection of index \<open>i\<close>.\<close>

definition rangeInfo_at :: "handler \<Rightarrow> int \<Rightarrow> nat \<Rightarrow> error + RangeInfo option" where
  "rangeInfo_at h incrCursor i =
     (let selection = selections h ! i;
          ln = line (sel_active selection);
          col = int (character (sel_active selection)) + incrCursor
      in if col < 0 then Inl IllegalArgument
         else (case exec_span (getText (document h) ln 0 (nat col)) of
                 None \<Rightarrow> Inr None
               | Some s \<Rightarrow>
                   Inr (Some \<lparr> ri_index = i, ri_selection = selection,
                               ri_range = \<lparr> start = \<lparr> line = ln, character = nat col - length s \<rparr>,
                                            end' = \<lparr> line = ln, character = nat col \<rparr> \<rparr>,
                               ri_text = s \<rparr>)))"

fun rangeInfos :: "handler \<Rightarrow> int \<Rightarrow> nat list \<Rightarrow> error + RangeInfo list" where
  "rangeInfos h incrCursor [] = Inr []"
| "rangeInfos h incrCursor (i # is) =
     (case rangeInfo_at h incrCursor i of
        Inl e \<Rightarrow> Inl e
      | Inr r \<Rightarrow>
          (case rangeInfos h incrCursor is of
             Inl e \<Rightarrow> Inl e
           | Inr ranges \<Rightarrow> Inr (case r of None \<Rightarrow> ranges | Some ri \<Rightarrow> ri # ranges)))"

text \<open>
  \<open>getRangeInfo\<close> is a method of the handler and can read the leader of its
  abbreviator; the abbreviator is a parameter for that reason.
\<close>

definition getRangeInfo :: "abbreviator \<Rightarrow> handler \<Rightarrow> int \<Rightarrow> error + RangeInfo list" where
  "getRangeInfo ab h incrCursor =
     (if \<not> active h then Inr []
      else if list_ex (\<lambda>s. \<not> isSingleLine s \<or> \<not> isEmpty s) (selections h) then Inr []
      else rangeInfos h incrCursor [0 ..< length (selections h)])"

text \<open>
  The table \<open>hackyReplacements\<close> of \<open>update\<close>: the replacement and, for two of the
  three entries, the text \<open>right\<close> expected after the span.  The glyphs are the pairs
  U+2983 U+2984, U+27E6 U+27E7 and U+27E8 U+27E9.
\<close>

definition hackyReplacements :: "jsstring \<Rightarrow> (jsstring \<times> jsstring \<times> jsstring option) list" where
  "hackyReplacements ld =
     [(ld @ js ''{{'', ([0x2983, 0x2984], Some (js ''}}''))),
      (ld @ js ''[['', ([0x27E6, 0x27E7], Some (js '']]''))),
      (ld @ js ''<>'', ([0x27E8, 0x27E9], None))]"

text \<open>
  The body of the loop of \<open>update\<close> for one span: the span as it is left in \<open>ris\<close>,
  and the entry pushed on \<open>replacements\<close> if there is one.  The text of a span starts
  with a backslash, so \<open>hackyReplacements[ri.text]\<close> never reads an inherited property.
\<close>

definition hacky_step ::
  "abbreviator \<Rightarrow> handler \<Rightarrow> RangeInfo \<Rightarrow> RangeInfo \<times> (nat \<times> Range \<times> jsstring \<times> Position) option" where
  "hacky_step ab h ri =
     (case map_of (hackyReplacements (leader ab)) (ri_text ri) of
        None \<Rightarrow> (ri, None)
      | Some (repl, right) \<Rightarrow>
          (let e = end' (ri_range ri) in
           if (case right of
                 None \<Rightarrow> False
               | Some r \<Rightarrow> getText (document h) (line e) (character e) (character e + length r) \<noteq> r)
           then (ri, None)
           else
             (let pos = translate (start (ri_range ri)) 1;
                  rng = \<lparr> start = start (ri_range ri),
                          end' = translate e (case right of None \<Rightarrow> 0 | Some r \<Rightarrow> length r) \<rparr>
              in (ri\<lparr>ri_text := [], ri_range := \<lparr> start = pos, end' = pos \<rparr>\<rparr>,
                  Some (ri_index ri, rng, repl, pos)))))"

text \<open>
  One step of the edit callback of \<open>update\<close>: \<open>ss[i] = new Selection(pos, pos)\<close>.  The
  index is the index of a selection of the editor, so the assignment is inside the list.
\<close>

definition place_cursor ::
  "Selection list \<Rightarrow> nat \<times> Range \<times> jsstring \<times> Position \<Rightarrow> Selection list" where
  "place_cursor ss r = (case r of (i, rng, repl, pos) \<Rightarrow>
                          ss[i := \<lparr> sel_anchor = pos, sel_active = pos \<rparr>])"

definition update :: "abbreviator \<Rightarrow> handler \<Rightarrow> int \<Rightarrow> error + handler" where
  "update ab h incrCursor =
     (case getRangeInfo ab h incrCursor of
        Inl e \<Rightarrow> Inl e
      | Inr ris \<Rightarrow>
          if length ris = 0 then Inr (deactivate h)
          else
            (let steps = map (hacky_step ab h) ris;
                 replacements = List.map_filter snd steps;
                 h1 = (if length replacements \<noteq> 0
                       then h\<lparr>edits := edits h
                                  @ [Edit (map (\<lambda>(i, rng, repl, pos). (rng, Str repl))
                                             replacements)],
                              selections := foldl place_cursor (selections h) replacements\<rparr>
                       else h)
             in Inr (h1\<lparr>decorations := map (\<lambda>x. ri_range (fst x)) steps\<rparr>)))"

definition convert :: "abbreviator \<Rightarrow> handler \<Rightarrow> error + handler" where
  "convert ab h =
     (case getRangeInfo ab h 0 of
        Inl e \<Rightarrow> Inl e
      | Inr ris \<Rightarrow>
          if length ris = 0 then Inr (deactivate h)
          else
            (let replacements =
                   map (\<lambda>ri. (ri_range ri,
                               findReplacement (allTranslations ab) (drop 1 (ri_text ri))))
                     (filter (\<lambda>ri. \<not> rangeSize (ri_range ri) < 2) ris)
             in Inr (deactivate (if length replacements \<noteq> 0
                                 then h\<lparr>edits := edits h @ [Timer replacements]\<rparr>
                                 else h))))"

definition onChanged :: "abbreviator \<Rightarrow> handler \<Rightarrow> TextDocumentChangeEvent \<Rightarrow> error + handler" where
  "onChanged ab h ev =
     (case contentChanges ev of
        [] \<Rightarrow> Inr h
      | change # _ \<Rightarrow>
          if \<not> active h then
            (if change_text change = leader ab then update ab (h\<lparr>active := True\<rparr>) 1
             else Inr h)
          else if change_text change = leader ab then
            (case convert ab h of
               Inl e \<Rightarrow> Inl e
             | Inr h1 \<Rightarrow> update ab (h1\<lparr>active := True\<rparr>) 0)
          else if completes (change_text change) then convert ab h
          else if change_text change = [] then update ab h (- 1)
          else update ab h (int (length (change_text change))))"

definition onSelectionChanged :: "abbreviator \<Rightarrow> handler \<Rightarrow> error + handler" where
  "onSelectionChanged ab h = update ab h 0"

subsection \<open>\<open>provideHover\<close>\<close>

fun join :: "jsstring \<Rightarrow> jsstring list \<Rightarrow> jsstring" where
  "join sep [] = []"
| "join sep [x] = x"
| "join sep (x # y # ys) = x @ sep @ join sep (y # ys)"

text \<open>
  \<open>Array.prototype.sort\<close> with the comparison of lengths is a stable sort by length, as
  \<open>sort_key length\<close> is.  The result \<open>false\<close> of the source is \<open>None\<close>.
\<close>

definition provideHover ::
  "hover_provider \<Rightarrow> jsstring list \<Rightarrow> Position \<Rightarrow> (jsstring \<times> Range) option" where
  "provideHover hp doc pos =
     (let symbolRange = \<lparr> start = pos, end' = translate pos 1 \<rparr>;
          symbol = getText doc (line pos) (character pos) (character pos + 1);
          abbrevs = sort_key length (getAbbrevations hp symbol)
      in if length abbrevs > 0
         then Some (js ''Type '' @ symbol @ js '' using ''
                      @ join (js '' or '') (map (\<lambda>a. hover_leader hp @ a) abbrevs),
                    symbolRange)
         else None)"

subsection \<open>The states a handler can be in\<close>

text \<open>
  A handler starts inactive with no decoration.  Between two calls the host may change
  the document and the selections; the handler itself is driven by \<open>onChanged\<close>,
  \<open>onSelectionChanged\<close> and the command \<open>lean.input.convert\<close>.  A call that throws
  leaves the state as it was.
\<close>

inductive reachable :: "handler \<Rightarrow> bool" where
  initial: "reachable \<lparr> active = False, document = doc, selections = ss,
                        decorations = [], edits = [] \<rparr>"
| host: "reachable h \<Longrightarrow> reachable (h\<lparr>document := doc, selections := ss\<rparr>)"
| changed: "reachable h \<Longrightarrow> onChanged ab h ev = Inr h' \<Longrightarrow> reachable h'"
| selection_changed: "reachable h \<Longrightarrow> onSelectionChanged ab h = Inr h' \<Longrightarrow> reachable h'"
| converted: "reachable h \<Longrightarrow> convert ab h = Inr h' \<Longrightarrow> reachable h'"

section \<open>Specification vocabulary\<close>

text \<open>
  \<open>first_shortest A ks k\<close>: among the keys \<open>ks\<close>, in their order, \<open>k\<close> is the first of the
  shortest keys that start with \<open>A\<close>.
\<close>

definition first_shortest :: "jsstring \<Rightarrow> jsstring list \<Rightarrow> jsstring \<Rightarrow> bool" where
  "first_shortest A ks k \<longleftrightarrow>
     (\<exists>pre post. ks = pre @ k # post \<and> prefix A k
        \<and> (\<forall>k' \<in> set pre. prefix A k' \<longrightarrow> length k < length k')
        \<and> (\<forall>k' \<in> set post. prefix A k' \<longrightarrow> length k \<le> length k'))"

text \<open>
  The text before the cursor of the selection of index \<open>i\<close>, as \<open>getRangeInfo\<close> reads it
  (the variable \<open>beforeCursor\<close> of its loop).
\<close>

definition beforeCursor :: "handler \<Rightarrow> int \<Rightarrow> nat \<Rightarrow> jsstring" where
  "beforeCursor h incrCursor i =
     getText (document h) (line (sel_active (selections h ! i))) 0
       (nat (int (character (sel_active (selections h ! i))) + incrCursor))"

text \<open>
  The bracket pairs in the words of the specification.  \<open>textAfter h ri n\<close> is the text of
  the \<open>n\<close> columns after the span.  \<open>bracket_pair ab h ri\<close> is the pair of glyphs a span
  expands into, with the number of columns after the span that are part of the replaced
  range: a span whose text is the leader and \<open>{{\<close> expands if \<open>}}\<close> follows it, one
  whose text is the leader and \<open>[[\<close> expands if \<open>]]\<close> follows it, one whose text is the
  leader and \<open><>\<close> always expands, and no other span does.  \<open>glyph_edits\<close> are the
  replacements of the expanding spans of a list, in its order, and \<open>between_glyphs\<close> is the
  position one column after the start of a span.
\<close>

definition textAfter :: "handler \<Rightarrow> RangeInfo \<Rightarrow> nat \<Rightarrow> jsstring" where
  "textAfter h ri n =
     getText (document h) (line (end' (ri_range ri))) (character (end' (ri_range ri)))
       (character (end' (ri_range ri)) + n)"

definition bracket_pair :: "abbreviator \<Rightarrow> handler \<Rightarrow> RangeInfo \<Rightarrow> (jsstring \<times> nat) option" where
  "bracket_pair ab h ri =
     (if ri_text ri = leader ab @ js ''{{'' \<and> textAfter h ri 2 = js ''}}''
        then Some ([0x2983, 0x2984], 2)
      else if ri_text ri = leader ab @ js ''[['' \<and> textAfter h ri 2 = js '']]''
        then Some ([0x27E6, 0x27E7], 2)
      else if ri_text ri = leader ab @ js ''<>''
        then Some ([0x27E8, 0x27E9], 0)
      else None)"

definition glyph_edits :: "abbreviator \<Rightarrow> handler \<Rightarrow> RangeInfo list \<Rightarrow> (Range \<times> jsval) list" where
  "glyph_edits ab h ris =
     List.map_filter
       (\<lambda>ri. case bracket_pair ab h ri of
                None \<Rightarrow> None
              | Some (glyphs, n) \<Rightarrow>
                  Some (\<lparr> start = start (ri_range ri),
                          end' = translate (end' (ri_range ri)) n \<rparr>, Str glyphs))
       ris"

definition between_glyphs :: "RangeInfo \<Rightarrow> Position" where
  "between_glyphs ri = translate (start (ri_range ri)) 1"

section \<open>Properties of \<open>findReplacement\<close>\<close>

lemma findReplacement_run_total:
  "findReplacement_run T A = Some (findReplacement T A)"
proof (induction A rule: length_induct)
  case (1 A)
  show ?case
  proof (cases "A = []")
    case True
    then show ?thesis
      by (simp add: findReplacement_run.simps findReplacement.simps)
  next
    case False
    then have "length (take (length A - 1) A) < length A"
      by (cases A) auto
    with 1 have IH: "findReplacement_run T (take (length A - 1) A)
                     = Some (findReplacement T (take (length A - 1) A))"
      by blast
    show ?thesis
      unfolding findReplacement_run.simps [of T A] findReplacement.simps [of T A]
      using IH by simp
  qed
qed

text \<open>
  C9: \<open>findReplacement\<close> returns on every table and every string (the open recursion
  always yields a value, the one of the total function); the argument of its recursive
  call, \<open>typedAbbrev.slice(0, typedAbbrev.length - 1)\<close>, is the abbreviation without its
  last character and is strictly shorter; and on the empty string it returns at once
  with no replacement (\<open>undefined\<close>).
\<close>

theorem C9_findReplacement_terminates:
  "(\<exists>r. findReplacement_run T A = Some r)
   \<and> findReplacement_run T A = Some (findReplacement T A)
   \<and> take (length (A @ [c]) - 1) (A @ [c]) = A
   \<and> length (take (length (A @ [c]) - 1) (A @ [c])) < length (A @ [c])
   \<and> findReplacement_run T [] = Some Undefined"
  by (simp add: findReplacement_run_total findReplacement.simps)

lemma startsWith_prefix: "startsWith k A \<longleftrightarrow> prefix A k"
proof
  assume "startsWith k A"
  then have "k = A @ drop (length A) k"
    by (metis startsWith_def append_take_drop_id)
  then show "prefix A k" by (metis prefixI)
next
  assume "prefix A k"
  then show "startsWith k A" by (auto simp: startsWith_def prefix_def)
qed

lemma shortestExtension_step_Null:
  "shortestExtension_step A Null x = (if prefix A x then Str x else Null)"
  by (simp add: shortestExtension_step_def startsWith_prefix)

lemma shortestExtension_step_Str:
  "k \<noteq> [] \<Longrightarrow> shortestExtension_step A (Str k) x
     = (if prefix A x \<and> length x < length k then Str x else Str k)"
  by (simp add: shortestExtension_step_def startsWith_prefix)

lemma set_for_in_keys: "set (for_in_keys T) = fst ` set T"
  by (auto simp: for_in_keys_def)

lemma get_Some: "map_of T k = Some v \<Longrightarrow> get T k = Str v"
  by (simp add: get_def)

lemma get_None:
  "map_of T k = None \<Longrightarrow> k \<notin> set inherited_names \<Longrightarrow> get T k = Undefined"
  by (simp add: get_def)

lemma get_inherited:
  "map_of T k = None \<Longrightarrow> k \<in> set inherited_names \<Longrightarrow> get T k = Inherited k"
  by (simp add: get_def)

lemma foldl_shortestExtension:
  assumes "A \<noteq> []"
  shows "(foldl (shortestExtension_step A) Null ks = Null \<and> (\<forall>k \<in> set ks. \<not> prefix A k))
       \<or> (\<exists>k. foldl (shortestExtension_step A) Null ks = Str k \<and> k \<noteq> [] \<and> first_shortest A ks k)"
proof (induction ks rule: rev_induct)
  case Nil
  then show ?case by simp
next
  case (snoc x ks)
  from snoc.IH show ?case
  proof
    assume H: "foldl (shortestExtension_step A) Null ks = Null \<and> (\<forall>k \<in> set ks. \<not> prefix A k)"
    show ?thesis
    proof (cases "prefix A x")
      case True
      with assms have "x \<noteq> []" by auto
      moreover have "first_shortest A (ks @ [x]) x"
        unfolding first_shortest_def using H True
        by (rule_tac x = ks in exI, rule_tac x = "[]" in exI) auto
      ultimately show ?thesis
        using H True by (simp add: shortestExtension_step_Null)
    next
      case False
      then show ?thesis
        using H by (simp add: shortestExtension_step_Null)
    qed
  next
    assume "\<exists>k. foldl (shortestExtension_step A) Null ks = Str k \<and> k \<noteq> [] \<and> first_shortest A ks k"
    then obtain k where k: "foldl (shortestExtension_step A) Null ks = Str k" "k \<noteq> []"
      and fs: "first_shortest A ks k" by blast
    from fs obtain pre post where ks: "ks = pre @ k # post" and pk: "prefix A k"
      and pre: "\<forall>k' \<in> set pre. prefix A k' \<longrightarrow> length k < length k'"
      and post: "\<forall>k' \<in> set post. prefix A k' \<longrightarrow> length k \<le> length k'"
      unfolding first_shortest_def by blast
    show ?thesis
    proof (cases "prefix A x \<and> length x < length k")
      case True
      with assms have "x \<noteq> []" by auto
      moreover have "first_shortest A (ks @ [x]) x"
        unfolding first_shortest_def
      proof (rule exI [of _ ks], rule exI [of _ "[]"], intro conjI)
        show "\<forall>k' \<in> set ks. prefix A k' \<longrightarrow> length x < length k'"
          using ks pre post True by fastforce
      qed (use True in auto)
      ultimately show ?thesis
        using k True by (simp add: shortestExtension_step_Str)
    next
      case False
      have "first_shortest A (ks @ [x]) k"
        unfolding first_shortest_def
        using ks pk pre post False
        by (rule_tac x = pre in exI, rule_tac x = "post @ [x]" in exI) auto
      then show ?thesis
        using k False by (auto simp add: shortestExtension_step_Str)
    qed
  qed
qed


lemma shortestExtension_cases:
  assumes "A \<noteq> []"
  shows "(shortestExtension T A = Null \<and> (\<forall>k \<in> fst ` set T. \<not> prefix A k))
       \<or> (\<exists>k. shortestExtension T A = Str k \<and> k \<noteq> [] \<and> first_shortest A (for_in_keys T) k)"
  using foldl_shortestExtension [OF assms, of "for_in_keys T"]
  by (simp add: shortestExtension_def set_for_in_keys)

lemma first_shortest_mem: "first_shortest A ks k \<Longrightarrow> k \<in> set ks \<and> prefix A k"
  by (auto simp: first_shortest_def)

lemma first_shortest_le:
  "first_shortest A ks k \<Longrightarrow> k' \<in> set ks \<Longrightarrow> prefix A k' \<Longrightarrow> length k \<le> length k'"
  by (fastforce simp: first_shortest_def)

lemma findReplacement_exact:
  assumes "map_of T A = Some v" "A \<noteq> []"
  shows "findReplacement T A = Str v"
proof (cases "v = []")
  case False
  with assms show ?thesis
    by (simp add: findReplacement.simps [of T A] get_Some)
next
  case True
  from assms(1) have mem: "A \<in> set (for_in_keys T)"
    by (metis set_for_in_keys map_of_SomeD image_eqI fst_conv)
  from shortestExtension_cases [OF assms(2), of T]
  obtain k where k: "shortestExtension T A = Str k" "k \<noteq> []"
    and fs: "first_shortest A (for_in_keys T) k"
    using mem by (auto simp: set_for_in_keys)
  have "length k \<le> length A"
    using first_shortest_le [OF fs mem] by simp
  moreover have "prefix A k"
    using first_shortest_mem [OF fs] by simp
  ultimately have "k = A"
    by (metis prefix_length_le le_antisym prefix_length_prefix prefix_order.dual_order.refl prefix_order.antisym)
  with k assms True show ?thesis
    by (simp add: findReplacement.simps [of T A] get_Some)
qed

lemma findReplacement_inherited:
  assumes "map_of T A = None" "A \<in> set inherited_names"
  shows "findReplacement T A = Inherited A"
proof -
  from assms(2) have "A \<noteq> []" by (auto simp: inherited_names_def js_def)
  with assms show ?thesis
    by (simp add: findReplacement.simps [of T A] get_inherited)
qed

lemma findReplacement_extension:
  assumes "map_of T A = None" "A \<noteq> []" "\<exists>k \<in> fst ` set T. prefix A k"
    and ni: "A \<notin> set inherited_names"
  shows "\<exists>k v. first_shortest A (for_in_keys T) k \<and> map_of T k = Some v
               \<and> findReplacement T A = Str v"
proof -
  from shortestExtension_cases [OF assms(2), of T] assms(3)
  obtain k where k: "shortestExtension T A = Str k" "k \<noteq> []"
    and fs: "first_shortest A (for_in_keys T) k"
    by auto
  from first_shortest_mem [OF fs] have "k \<in> fst ` set T"
    by (simp add: set_for_in_keys)
  then obtain v where v: "map_of T k = Some v"
    by (metis domD dom_map_of_conv_image_fst)
  have "findReplacement T A = Str v"
    using assms(1,2) ni k v by (simp add: findReplacement.simps [of T A] get_Some get_None)
  with fs v show ?thesis by blast
qed


text \<open>
  What \<open>findReplacement\<close> returns for a non-empty abbreviation \<open>A\<close>.  If \<open>A\<close> is a key of
  the table, its symbol.  Otherwise, if \<open>A\<close> names a property inherited from the
  prototype, the value of that property.  Otherwise, if some keys have \<open>A\<close> as a proper
  prefix, the symbol of a shortest such key, the first of them in the iteration order
  of the table: every such key before it is strictly longer, every such key after it
  is at least as long.
\<close>

lemma findReplacement_exact_or_shortest:
  assumes "A \<noteq> []"
  shows "(\<forall>v. map_of T A = Some v \<longrightarrow> findReplacement T A = Str v)
       \<and> (map_of T A = None \<and> A \<in> set inherited_names \<longrightarrow> findReplacement T A = Inherited A)
       \<and> (map_of T A = None \<and> A \<notin> set inherited_names
            \<and> (\<exists>k \<in> fst ` set T. strict_prefix A k) \<longrightarrow>
            (\<exists>pre k post v. for_in_keys T = pre @ k # post \<and> strict_prefix A k
               \<and> map_of T k = Some v \<and> findReplacement T A = Str v
               \<and> (\<forall>k' \<in> set pre. strict_prefix A k' \<longrightarrow> length k < length k')
               \<and> (\<forall>k' \<in> set post. strict_prefix A k' \<longrightarrow> length k \<le> length k')))"
proof (intro conjI allI impI)
  fix v assume "map_of T A = Some v"
  then show "findReplacement T A = Str v"
    using assms by (rule findReplacement_exact)
next
  assume "map_of T A = None \<and> A \<in> set inherited_names"
  then show "findReplacement T A = Inherited A"
    by (simp add: findReplacement_inherited)
next
  assume H: "map_of T A = None \<and> A \<notin> set inherited_names
            \<and> (\<exists>k \<in> fst ` set T. strict_prefix A k)"
  then have "\<exists>k \<in> fst ` set T. prefix A k"
    by (auto simp: strict_prefix_def)
  from findReplacement_extension [OF conjunct1 [OF H] assms this] H
  obtain k v where fs: "first_shortest A (for_in_keys T) k"
    and v: "map_of T k = Some v" and r: "findReplacement T A = Str v"
    by blast
  from v H have "k \<noteq> A" by auto
  from fs obtain pre post where ks: "for_in_keys T = pre @ k # post" and pk: "prefix A k"
    and pre: "\<forall>k' \<in> set pre. prefix A k' \<longrightarrow> length k < length k'"
    and post: "\<forall>k' \<in> set post. prefix A k' \<longrightarrow> length k \<le> length k'"
    unfolding first_shortest_def by blast
  have "strict_prefix A k"
    using pk \<open>k \<noteq> A\<close> by (simp add: strict_prefix_def)
  moreover have "\<forall>k' \<in> set pre. strict_prefix A k' \<longrightarrow> length k < length k'"
    using pre by (simp add: strict_prefix_def)
  moreover have "\<forall>k' \<in> set post. strict_prefix A k' \<longrightarrow> length k \<le> length k'"
    using post by (simp add: strict_prefix_def)
  ultimately show "\<exists>pre k post v. for_in_keys T = pre @ k # post \<and> strict_prefix A k
               \<and> map_of T k = Some v \<and> findReplacement T A = Str v
               \<and> (\<forall>k' \<in> set pre. strict_prefix A k' \<longrightarrow> length k < length k')
               \<and> (\<forall>k' \<in> set post. strict_prefix A k' \<longrightarrow> length k \<le> length k')"
    using ks v r by blast
qed

text \<open>The definitions a concrete table is evaluated with.\<close>

lemmas eval_table = js_def for_in_keys_def is_array_index_def is_digit_def to_number_def
  get_def inherited_names_def shortestExtension_def shortestExtension_step_def startsWith_def

text \<open>
  The tables of the specification: in \<open>{"ab": "X", "abc": "Y"}\<close> the key \<open>ab\<close> gives
  \<open>X\<close>; where \<open>ab\<close> is a proper prefix of three keys, the first of the two shortest
  gives the result.
\<close>

lemma findReplacement_examples:
  "findReplacement [(js ''ab'', js ''X''), (js ''abc'', js ''Y'')] (js ''ab'') = Str (js ''X'')
   \<and> (\<exists>pre k post v.
         for_in_keys [(js ''abd'', js ''Z''), (js ''abc'', js ''Y''), (js ''abcd'', js ''W'')] = pre @ k # post
       \<and> strict_prefix (js ''ab'') k
       \<and> map_of [(js ''abd'', js ''Z''), (js ''abc'', js ''Y''), (js ''abcd'', js ''W'')] k = Some v
       \<and> findReplacement [(js ''abd'', js ''Z''), (js ''abc'', js ''Y''), (js ''abcd'', js ''W'')] (js ''ab'') = Str v
       \<and> (\<forall>k' \<in> set pre. strict_prefix (js ''ab'') k' \<longrightarrow> length k < length k')
       \<and> (\<forall>k' \<in> set post. strict_prefix (js ''ab'') k' \<longrightarrow> length k \<le> length k'))"
proof
  show "findReplacement [(js ''ab'', js ''X''), (js ''abc'', js ''Y'')] (js ''ab'') = Str (js ''X'')"
    using findReplacement_exact_or_shortest
            [of "js ''ab''" "[(js ''ab'', js ''X''), (js ''abc'', js ''Y'')]"]
    by (simp add: js_def)
next
  show "\<exists>pre k post v.
         for_in_keys [(js ''abd'', js ''Z''), (js ''abc'', js ''Y''), (js ''abcd'', js ''W'')] = pre @ k # post
       \<and> strict_prefix (js ''ab'') k
       \<and> map_of [(js ''abd'', js ''Z''), (js ''abc'', js ''Y''), (js ''abcd'', js ''W'')] k = Some v
       \<and> findReplacement [(js ''abd'', js ''Z''), (js ''abc'', js ''Y''), (js ''abcd'', js ''W'')] (js ''ab'') = Str v
       \<and> (\<forall>k' \<in> set pre. strict_prefix (js ''ab'') k' \<longrightarrow> length k < length k')
       \<and> (\<forall>k' \<in> set post. strict_prefix (js ''ab'') k' \<longrightarrow> length k \<le> length k')"
    using findReplacement_exact_or_shortest
            [of "js ''ab''" "[(js ''abd'', js ''Z''), (js ''abc'', js ''Y''), (js ''abcd'', js ''W'')]"]
    by (simp add: js_def inherited_names_def)
qed

text \<open>
  C3: a key of the table gives its symbol, and otherwise the first of the shortest keys
  that extend the abbreviation gives the result.  The code does so for every
  abbreviation that names no inherited property (the lemma above), but not for the
  others.  \<open>constructor\<close> is not a key of the table \<open>{"constructorx": "Y"}\<close> and is a proper
  prefix of its only key, so the result should be the symbol \<open>Y\<close>; the read \<open>this.allTranslations[typedAbbrev]\<close> finds the inherited
  property \<open>constructor\<close>, which is truthy, and \<open>findReplacement\<close> returns that function,
  not a string.
\<close>

theorem C3_inherited_name_wins:
  "js ''constructor'' \<noteq> []
   \<and> map_of [(js ''constructorx'', js ''Y'')] (js ''constructor'') = None
   \<and> strict_prefix (js ''constructor'') (js ''constructorx'')
   \<and> findReplacement [(js ''constructorx'', js ''Y'')] (js ''constructor'')
       = Inherited (js ''constructor'')
   \<and> findReplacement [(js ''constructorx'', js ''Y'')] (js ''constructor'') \<noteq> Str (js ''Y'')"
  by (simp add: findReplacement.simps eval_table)







section \<open>Properties of the merged table\<close>

lemma map_of_obj_define: "map_of (obj_define T k v) = (map_of T)(k \<mapsto> v)"
  by (induction T k v rule: obj_define.induct) auto

lemma map_of_obj_put:
  "map_of (obj_put T k v) =
     (if k = js ''__proto__'' \<and> map_of T k = None then map_of T else (map_of T)(k \<mapsto> v))"
  unfolding obj_put_def by (simp only: if_distrib [of map_of] map_of_obj_define)

lemma map_of_fold_obj_define:
  "set ks \<subseteq> fst ` set S \<Longrightarrow>
   map_of (foldl (\<lambda>T k. obj_define T k (the_string (get S k))) T0 ks) k
     = (if k \<in> set ks then map_of S k else map_of T0 k)"
proof (induction ks arbitrary: T0)
  case Nil
  then show ?case by simp
next
  case (Cons x ks)
  from Cons.prems have "x \<in> fst ` set S" by simp
  then obtain v where v: "map_of S x = Some v"
    by (metis domD dom_map_of_conv_image_fst)
  from Cons.prems have "set ks \<subseteq> fst ` set S" by simp
  from Cons.IH [OF this] show ?case
    using v by (simp add: map_of_obj_define get_def)
qed

lemma map_of_fold_obj_put:
  "set ks \<subseteq> fst ` set S \<Longrightarrow>
   map_of (foldl (\<lambda>T k. obj_put T k (the_string (get S k))) T0 ks) k
     = (if k \<in> set ks \<and> \<not> (k = js ''__proto__'' \<and> map_of T0 k = None)
        then map_of S k else map_of T0 k)"
proof (induction ks arbitrary: T0)
  case Nil
  then show ?case by simp
next
  case (Cons x ks)
  from Cons.prems have "x \<in> fst ` set S" by simp
  then obtain v where v: "map_of S x = Some v"
    by (metis domD dom_map_of_conv_image_fst)
  then have gv: "the_string (get S x) = v" by (simp add: get_def)
  from Cons.prems have sub: "set ks \<subseteq> fst ` set S" by simp
  define T1 where "T1 = obj_put T0 x v"
  have r: "map_of (foldl (\<lambda>T k. obj_put T k (the_string (get S k))) T0 (x # ks)) k
           = (if k \<in> set ks \<and> \<not> (k = js ''__proto__'' \<and> map_of T1 k = None)
              then map_of S k else map_of T1 k)"
    using Cons.IH [OF sub, of T1] by (simp add: gv T1_def)
  show ?case
  proof (cases "x = js ''__proto__'' \<and> map_of T0 x = None")
    case True
    then have "T1 = T0" by (auto simp: T1_def obj_put_def)
    with r True show ?thesis by auto
  next
    case False
    then have m: "map_of T1 = (map_of T0)(x \<mapsto> v)"
      unfolding T1_def by (simp only: map_of_obj_put if_False)
    from r False v show ?thesis unfolding m by auto
  qed
qed

lemma mem_keys: "(k \<in> fst ` set T) = (map_of T k \<noteq> None)"
  by (simp add: map_of_eq_None_iff)

lemma map_of_spread: "map_of (spread a b) k = (map_of a ++ map_of b) k"
proof -
  have "map_of (spread a b) k =
          (if k \<in> set (for_in_keys b) then map_of b k
           else if k \<in> set (for_in_keys a) then map_of a k else None)"
    unfolding spread_def
    by (simp add: map_of_fold_obj_define set_for_in_keys)
  then show ?thesis
    by (cases "map_of b k"; cases "map_of a k")
       (auto simp: set_for_in_keys mem_keys map_add_def)
qed

lemma map_of_assign:
  "map_of (assign T0 S) k =
     (if k = js ''__proto__'' \<and> map_of T0 k = None then None else (map_of T0 ++ map_of S) k)"
proof -
  have "map_of (assign T0 S) k =
          (if k \<in> set (for_in_keys S) \<and> \<not> (k = js ''__proto__'' \<and> map_of T0 k = None)
           then map_of S k else map_of T0 k)"
    unfolding assign_def
    by (rule map_of_fold_obj_put) (simp add: set_for_in_keys)
  then show ?thesis
    by (cases "map_of S k"; cases "map_of T0 k")
       (auto simp: set_for_in_keys mem_keys map_add_def)
qed

lemma map_of_allTranslations:
  "map_of (allTranslations (new_abbreviator ld custom base)) k =
     (case map_of custom k of
        Some v \<Rightarrow> Some v
      | None \<Rightarrow> if k = js ''__proto__'' then None else map_of base k)"
  by (cases "map_of custom k")
     (auto simp: new_abbreviator_def Let_def map_of_spread map_of_assign map_add_def)

lemma distinct_for_in_keys: "distinct (map fst T) \<Longrightarrow> distinct (for_in_keys T)"
  by (auto simp: for_in_keys_def)


lemma allTranslations_override:
  "map_of custom k = Some v \<Longrightarrow> get (allTranslations (new_abbreviator ld custom base)) k = Str v"
  by (simp add: get_def map_of_allTranslations)

lemma allTranslations_base:
  "map_of custom k = None \<Longrightarrow> k \<noteq> js ''__proto__'' \<Longrightarrow>
   get (allTranslations (new_abbreviator ld custom base)) k = get base k"
  by (simp add: get_def map_of_allTranslations)

text \<open>
  C5: the merged table maps a key of both tables to the symbol of the override (the two
  lemmas above), but \<open>getAbbrevations\<close> skips a base entry only when the override is
  truthy.  With the base table \<open>{"a": "X"}\<close> and the override \<open>{"a": ""}\<close> the merged
  table maps \<open>"a"\<close> to \<open>""\<close>, and \<open>getAbbrevations("X")\<close> still lists the shadowed
  base entry \<open>"a"\<close>.
\<close>

theorem C5_empty_override_not_shadowed:
  "map_of [(js ''a'', js ''X'')] (js ''a'') = Some (js ''X'')
   \<and> map_of [(js ''a'', [])] (js ''a'') = Some []
   \<and> get (allTranslations (new_abbreviator [backslash] [(js ''a'', [])] [(js ''a'', js ''X'')]))
         (js ''a'') = Str []
   \<and> getAbbrevations \<lparr> hover_leader = [backslash], hover_customTranslations = [(js ''a'', [])],
                        hover_translations = [(js ''a'', js ''X'')] \<rparr> (js ''X'') = [js ''a'']"
  by (simp add: getAbbrevations_def new_abbreviator_def Let_def spread_def assign_def
        obj_put_def eval_table)

section \<open>Properties of the hover provider\<close>

lemma getAbbrevations_shadowing:
  assumes "\<forall>v \<in> snd ` set (hover_customTranslations hp). v \<noteq> []"
    and "\<forall>k \<in> fst ` set (hover_translations hp). k \<notin> set inherited_names"
  shows "getAbbrevations hp symbol =
           filter (\<lambda>k. map_of (hover_customTranslations hp) k = Some symbol)
             (for_in_keys (hover_customTranslations hp))
           @ filter (\<lambda>k. map_of (hover_customTranslations hp) k = None
                         \<and> map_of (hover_translations hp) k = Some symbol)
               (for_in_keys (hover_translations hp))"
proof -
  have 1: "(get T k = Str symbol) = (map_of T k = Some symbol)" for T k
    by (simp add: get_def split: option.splits)
  have 2: "(\<not> truthy (get (hover_customTranslations hp) k))
            = (map_of (hover_customTranslations hp) k = None)"
    if "k \<in> set (for_in_keys (hover_translations hp))" for k
  proof (cases "map_of (hover_customTranslations hp) k")
    case None
    from that assms(2) have "k \<notin> set inherited_names"
      unfolding set_for_in_keys by blast
    with None show ?thesis by (simp add: get_def)
  next
    case (Some v)
    then have "v \<in> snd ` set (hover_customTranslations hp)"
      by (metis map_of_SomeD image_eqI snd_conv)
    with assms(1) have "v \<noteq> []" by blast
    with Some show ?thesis by (simp add: get_def)
  qed
  have "filter (\<lambda>k. \<not> truthy (get (hover_customTranslations hp) k)
                 \<and> get (hover_translations hp) k = Str symbol)
          (for_in_keys (hover_translations hp))
        = filter (\<lambda>k. map_of (hover_customTranslations hp) k = None
                         \<and> map_of (hover_translations hp) k = Some symbol)
            (for_in_keys (hover_translations hp))"
    by (rule filter_cong) (simp_all add: 1 2)
  then show ?thesis
    unfolding getAbbrevations_def by (simp only: 1)
qed

lemma sort_key_length_stable:
  "filter (\<lambda>k. length k = n) (sort_key length xs) = filter (\<lambda>k. length k = n) xs"
  by (rule sort_key_stable)

text \<open>
  C6, as amended: when the keys of each table are distinct, no override symbol is
  empty and no key of the base table names an inherited property,
  \<open>getAbbrevations(symbol)\<close> returns the override keys mapped to the symbol, in
  the iteration order of the override table, followed by the base keys mapped to the
  symbol that no override shadows, in the iteration order of the base table; these are
  exactly the keys the merged table maps to the symbol, each once (none if there is
  no such key).  The list is not sorted by \<open>getAbbrevations\<close>: \<open>provideHover\<close> sorts it
  by length, shortest first and keeping that order among abbreviations of equal
  length, and its message is \<open>Type <symbol> using <leader><abbrev1> or <leader><abbrev2> ...\<close>
  (no hover if the list is empty).
\<close>

theorem C6_abbreviations_and_hover:
  assumes "distinct (map fst (hover_customTranslations hp))"
    and "distinct (map fst (hover_translations hp))"
    and "\<forall>v \<in> snd ` set (hover_customTranslations hp). v \<noteq> []"
    and "\<forall>k \<in> fst ` set (hover_translations hp). k \<notin> set inherited_names"
  shows "getAbbrevations hp symbol =
           filter (\<lambda>k. map_of (hover_customTranslations hp) k = Some symbol)
             (for_in_keys (hover_customTranslations hp))
           @ filter (\<lambda>k. map_of (hover_customTranslations hp) k = None
                         \<and> map_of (hover_translations hp) k = Some symbol)
               (for_in_keys (hover_translations hp))
       \<and> set (getAbbrevations hp symbol) =
           {k. (map_of (hover_translations hp) ++ map_of (hover_customTranslations hp)) k
                 = Some symbol}
       \<and> distinct (getAbbrevations hp symbol)
       \<and> (\<exists>abbrevs.
           mset abbrevs = mset (getAbbrevations hp (getText doc (line pos) (character pos) (character pos + 1)))
         \<and> sorted (map length abbrevs)
         \<and> (\<forall>n. filter (\<lambda>k. length k = n) abbrevs
                  = filter (\<lambda>k. length k = n)
                      (getAbbrevations hp (getText doc (line pos) (character pos) (character pos + 1))))
         \<and> provideHover hp doc pos =
             (if abbrevs = [] then None
              else Some (js ''Type '' @ getText doc (line pos) (character pos) (character pos + 1)
                           @ js '' using ''
                           @ join (js '' or '') (map (\<lambda>a. hover_leader hp @ a) abbrevs),
                         \<lparr> start = pos, end' = translate pos 1 \<rparr>)))"
proof (intro conjI)
  show A: "getAbbrevations hp symbol =
           filter (\<lambda>k. map_of (hover_customTranslations hp) k = Some symbol)
             (for_in_keys (hover_customTranslations hp))
           @ filter (\<lambda>k. map_of (hover_customTranslations hp) k = None
                         \<and> map_of (hover_translations hp) k = Some symbol)
               (for_in_keys (hover_translations hp))"
    using assms(3,4) by (rule getAbbrevations_shadowing)
  show "set (getAbbrevations hp symbol) =
           {k. (map_of (hover_translations hp) ++ map_of (hover_customTranslations hp)) k
                 = Some symbol}"
  proof (rule set_eqI)
    fix k
    have mem: "(k \<in> fst ` set T) = (map_of T k \<noteq> None)" for T :: Translations
      by (simp add: map_of_eq_None_iff)
    show "(k \<in> set (getAbbrevations hp symbol)) =
          (k \<in> {k. (map_of (hover_translations hp) ++ map_of (hover_customTranslations hp)) k
                       = Some symbol})"
      unfolding A
      by (cases "map_of (hover_customTranslations hp) k")
         (auto simp: set_for_in_keys mem map_add_def)
  qed
  show "distinct (getAbbrevations hp symbol)"
    unfolding A using assms(1,2)
    by (auto simp: distinct_for_in_keys set_for_in_keys map_of_eq_None_iff [symmetric])
  show "\<exists>abbrevs.
           mset abbrevs = mset (getAbbrevations hp (getText doc (line pos) (character pos) (character pos + 1)))
         \<and> sorted (map length abbrevs)
         \<and> (\<forall>n. filter (\<lambda>k. length k = n) abbrevs
                  = filter (\<lambda>k. length k = n)
                      (getAbbrevations hp (getText doc (line pos) (character pos) (character pos + 1))))
         \<and> provideHover hp doc pos =
             (if abbrevs = [] then None
              else Some (js ''Type '' @ getText doc (line pos) (character pos) (character pos + 1)
                           @ js '' using ''
                           @ join (js '' or '') (map (\<lambda>a. hover_leader hp @ a) abbrevs),
                         \<lparr> start = pos, end' = translate pos 1 \<rparr>))"
    by (rule exI [of _ "sort_key length
           (getAbbrevations hp (getText doc (line pos) (character pos) (character pos + 1)))"])
       (simp add: provideHover_def Let_def sort_key_length_stable)
qed

text \<open>
  The theorem on the override \<open>{"b": "X"}\<close> and the base table
  \<open>{"a": "X", "b": "Y", "abc": "X"}\<close>, with the hover message for \<open>X\<close>.
\<close>

theorem C6_witness:
  "getAbbrevations
        \<lparr> hover_leader = [backslash], hover_customTranslations = [(js ''b'', js ''X'')],
          hover_translations = [(js ''a'', js ''X''), (js ''b'', js ''Y''), (js ''abc'', js ''X'')] \<rparr>
        (js ''X'') = [js ''b'', js ''a'', js ''abc'']
   \<and> distinct (getAbbrevations
        \<lparr> hover_leader = [backslash], hover_customTranslations = [(js ''b'', js ''X'')],
          hover_translations = [(js ''a'', js ''X''), (js ''b'', js ''Y''), (js ''abc'', js ''X'')] \<rparr>
        (js ''X''))
   \<and> provideHover
     \<lparr> hover_leader = [backslash], hover_customTranslations = [(js ''b'', js ''X'')],
       hover_translations = [(js ''a'', js ''X''), (js ''b'', js ''Y''), (js ''abc'', js ''X'')] \<rparr>
     [js ''fX''] \<lparr> line = 0, character = 1 \<rparr>
   = Some (js ''Type X using '' @ [backslash] @ js ''b or '' @ [backslash] @ js ''a or '' @ [backslash] @ js ''abc'',
           \<lparr> start = \<lparr> line = 0, character = 1 \<rparr>, end' = \<lparr> line = 0, character = 2 \<rparr> \<rparr>)"
  using C6_abbreviations_and_hover
          [of "\<lparr> hover_leader = [backslash], hover_customTranslations = [(js ''b'', js ''X'')],
                 hover_translations = [(js ''a'', js ''X''), (js ''b'', js ''Y''), (js ''abc'', js ''X'')] \<rparr>"
              "js ''X''"]
  by (simp add: provideHover_def getAbbrevations_def getText_def translate_def eval_table)

text \<open>
  C6 as stated fails on the order of the result of \<open>getAbbrevations\<close>: with the override
  \<open>{"abc": "X"}\<close> and the base table \<open>{"a": "X"}\<close> it returns \<open>abc\<close> before \<open>a\<close>.
  It also fails on a base key that names an inherited property: with the base table
  \<open>{"constructor": "X", "c": "X"}\<close> and no override, \<open>this.customTranslations[k]\<close> is
  the inherited function for \<open>constructor\<close>, and only \<open>c\<close> is returned.
\<close>

theorem C6_counterexample:
  "getAbbrevations
     \<lparr> hover_leader = [backslash], hover_customTranslations = [(js ''abc'', js ''X'')],
       hover_translations = [(js ''a'', js ''X'')] \<rparr>
     (js ''X'') = [js ''abc'', js ''a'']
   \<and> \<not> sorted (map length (getAbbrevations
     \<lparr> hover_leader = [backslash], hover_customTranslations = [(js ''abc'', js ''X'')],
       hover_translations = [(js ''a'', js ''X'')] \<rparr>
     (js ''X'')))
   \<and> map_of [(js ''constructor'', js ''X''), (js ''c'', js ''X'')] (js ''constructor'')
       = Some (js ''X'')
   \<and> getAbbrevations
     \<lparr> hover_leader = [backslash], hover_customTranslations = [],
       hover_translations = [(js ''constructor'', js ''X''), (js ''c'', js ''X'')] \<rparr>
     (js ''X'') = [js ''c'']"
  by (simp add: getAbbrevations_def eval_table)

section \<open>Properties of the handler\<close>

text \<open>The definitions a concrete handler state is evaluated with.\<close>

lemmas eval_handler = convert_def update_def getRangeInfo_def rangeInfo_at_def getText_def
  is_space_def isEmpty_def isSingleLine_def rangeSize_def deactivate_def backslash_def
  hacky_step_def hackyReplacements_def translate_def onChanged_def onSelectionChanged_def
  completes_def List.map_filter_def place_cursor_def

lemmas eval_shapes = cursor_def line_range_def

text \<open>
  C1: \<open>convert\<close> pushes the result of \<open>findReplacement\<close> on \<open>replacements\<close> without
  testing it.  With the only key \<open>alpha\<close>, the span of a backslash and \<open>zz\<close> has no exact match, no
  extension and no resolvable prefix; \<open>findReplacement\<close> gives \<open>null\<close>, and \<open>convert\<close>
  sets the timer that requests the edit \<open>builder.replace(range, null)\<close> for the span.
\<close>

theorem C1_unresolved_span_is_edited:
  "findReplacement (allTranslations (new_abbreviator [backslash] [] [(js ''alpha'', [0x3B1])]))
     (js ''zz'') = Null
   \<and> convert (new_abbreviator [backslash] [] [(js ''alpha'', [0x3B1])])
       \<lparr> active = True, document = [backslash # js ''zz''],
         selections = [\<lparr> sel_anchor = \<lparr> line = 0, character = 3 \<rparr>,
                        sel_active = \<lparr> line = 0, character = 3 \<rparr> \<rparr>],
         decorations = [\<lparr> start = \<lparr> line = 0, character = 0 \<rparr>,
                         end' = \<lparr> line = 0, character = 3 \<rparr> \<rparr>],
         edits = [] \<rparr>
     = Inr \<lparr> active = False, document = [backslash # js ''zz''],
             selections = [\<lparr> sel_anchor = \<lparr> line = 0, character = 3 \<rparr>,
                            sel_active = \<lparr> line = 0, character = 3 \<rparr> \<rparr>],
             decorations = [],
             edits = [Timer [(\<lparr> start = \<lparr> line = 0, character = 0 \<rparr>,
                               end' = \<lparr> line = 0, character = 3 \<rparr> \<rparr>, Null)]] \<rparr>"
  by (simp add: eval_handler new_abbreviator_def Let_def spread_def assign_def obj_put_def
        eval_table findReplacement.simps)

lemma getRangeInfo_inactive: "\<not> active h \<Longrightarrow> getRangeInfo ab h i = Inr []"
  by (simp add: getRangeInfo_def)

lemma getRangeInfo_selection:
  "\<exists>s \<in> set (selections h). \<not> isEmpty s \<Longrightarrow> getRangeInfo ab h i = Inr []"
  by (auto simp: getRangeInfo_def list_ex_iff)

lemma getRangeInfo_nonempty_active:
  "getRangeInfo ab h i = Inr ris \<Longrightarrow> ris \<noteq> [] \<Longrightarrow> active h"
  by (rule ccontr) (simp add: getRangeInfo_def)

lemma rangeInfo_at_nonneg:
  "0 \<le> i \<Longrightarrow> \<exists>r. rangeInfo_at h i n = Inr r"
  by (simp add: rangeInfo_at_def Let_def split: option.splits)

lemma rangeInfos_nonneg:
  "0 \<le> i \<Longrightarrow> \<exists>ris. rangeInfos h i ns = Inr ris"
proof (induction ns)
  case Nil
  then show ?case by simp
next
  case (Cons n ns)
  from rangeInfo_at_nonneg [OF Cons.prems, of h n] obtain r where "rangeInfo_at h i n = Inr r" ..
  moreover from Cons obtain ris where "rangeInfos h i ns = Inr ris" by blast
  ultimately show ?case by simp
qed

lemma getRangeInfo_nonneg: "0 \<le> i \<Longrightarrow> \<exists>ris. getRangeInfo ab h i = Inr ris"
  using rangeInfos_nonneg [of i h] by (simp add: getRangeInfo_def)

lemma update_no_span:
  "getRangeInfo ab h i = Inr [] \<Longrightarrow> update ab h i = Inr (deactivate h)"
  by (simp add: update_def)

lemma convert_no_span:
  "getRangeInfo ab h 0 = Inr [] \<Longrightarrow> convert ab h = Inr (deactivate h)"
  by (simp add: convert_def)

lemma convert_deactivates:
  "\<exists>h'. convert ab h = Inr h' \<and> \<not> active h' \<and> decorations h' = []
        \<and> document h' = document h \<and> selections h' = selections h"
proof -
  from getRangeInfo_nonneg [of 0 ab h] obtain ris where "getRangeInfo ab h 0 = Inr ris" by auto
  then show ?thesis
    by (simp add: convert_def deactivate_def Let_def)
qed

lemma update_spans:
  assumes "getRangeInfo ab h i = Inr ris" "ris \<noteq> []"
  shows "\<exists>h'. update ab h i = Inr h' \<and> active h' = active h \<and> document h' = document h
           \<and> decorations h' = map (\<lambda>ri. ri_range (fst (hacky_step ab h ri))) ris"
  using assms by (simp add: update_def Let_def comp_def)

lemma update_inactive:
  assumes "update ab h i = Inr h'" "\<not> active h'"
  shows "decorations h' = []"
proof (cases "getRangeInfo ab h i")
  case (Inl e)
  with assms show ?thesis by (simp add: update_def)
next
  case (Inr ris)
  show ?thesis
  proof (cases "ris = []")
    case True
    with Inr have "update ab h i = Inr (deactivate h)" by (simp add: update_no_span)
    with assms show ?thesis by (auto simp: deactivate_def)
  next
    case False
    with Inr have "active h" by (rule getRangeInfo_nonempty_active)
    moreover from update_spans [OF Inr False] assms(1) have "active h' = active h" by auto
    ultimately show ?thesis using assms(2) by simp
  qed
qed

lemma onChanged_cases:
  assumes "contentChanges ev = change # cs"
  shows "onChanged ab h ev = Inr h
       \<or> (\<exists>g i. onChanged ab h ev = update ab g i)
       \<or> onChanged ab h ev = convert ab h"
proof -
  from convert_deactivates [of ab h] obtain h1 where h1: "convert ab h = Inr h1" by blast
  have "onChanged ab h ev =
     (if \<not> active h then
            (if change_text change = leader ab then update ab (h\<lparr>active := True\<rparr>) 1
             else Inr h)
          else if change_text change = leader ab then update ab (h1\<lparr>active := True\<rparr>) 0
          else if completes (change_text change) then convert ab h
          else if change_text change = [] then update ab h (- 1)
          else update ab h (int (length (change_text change))))"
    by (simp add: onChanged_def assms h1)
  then show ?thesis by metis
qed

lemma onChanged_inactive:
  assumes "\<not> active h \<longrightarrow> decorations h = []" "onChanged ab h ev = Inr h'" "\<not> active h'"
  shows "decorations h' = []"
proof (cases "contentChanges ev")
  case Nil
  with assms show ?thesis by (simp add: onChanged_def)
next
  case (Cons change cs)
  from onChanged_cases [OF Cons, of ab h] assms(2) consider
      "h' = h" | "\<exists>g i. update ab g i = Inr h'" | "convert ab h = Inr h'"
    by (metis sum.inject(2))
  then show ?thesis
  proof cases
    case 1
    with assms show ?thesis by simp
  next
    case 2
    with assms(3) show ?thesis by (auto dest: update_inactive)
  next
    case 3
    with convert_deactivates [of ab h] show ?thesis by auto
  qed
qed

text \<open>
  The only call that can throw is \<open>update(-1)\<close>, at a deletion in an active session;
  it throws before the handler has changed anything.
\<close>

lemma update_nonneg: "0 \<le> i \<Longrightarrow> \<exists>h'. update ab h i = Inr h'"
proof -
  assume "0 \<le> i"
  from getRangeInfo_nonneg [OF this, of ab h] obtain ris where "getRangeInfo ab h i = Inr ris"
    by blast
  then show ?thesis by (simp add: update_def Let_def)
qed

lemma onChanged_throws:
  assumes "onChanged ab h ev = Inl e"
  shows "\<exists>c cs. contentChanges ev = c # cs \<and> active h \<and> change_text c = []
           \<and> update ab h (- 1) = Inl e"
proof (cases "contentChanges ev")
  case Nil
  with assms show ?thesis by (simp add: onChanged_def)
next
  case (Cons c cs)
  from convert_deactivates [of ab h] obtain h1 where h1: "convert ab h = Inr h1" by blast
  from update_nonneg [of 1 ab "h\<lparr>active := True\<rparr>"]
  obtain g1 where g1: "update ab (h\<lparr>active := True\<rparr>) 1 = Inr g1" by auto
  from update_nonneg [of 0 ab "h1\<lparr>active := True\<rparr>"]
  obtain g2 where g2: "update ab (h1\<lparr>active := True\<rparr>) 0 = Inr g2" by auto
  from update_nonneg [of "int (length (change_text c))" ab h]
  obtain g3 where g3: "update ab h (int (length (change_text c))) = Inr g3" by auto
  from assms show ?thesis
    unfolding onChanged_def Cons
    by (simp add: h1 g1 g2 g3 split: if_splits)
qed

lemma reachable_invariant: "reachable h \<Longrightarrow> \<not> active h \<longrightarrow> decorations h = []"
proof (induction rule: reachable.induct)
  case (initial doc ss)
  then show ?case by simp
next
  case (host h doc ss)
  then show ?case by simp
next
  case (changed h ab ev h')
  then show ?case using onChanged_inactive by blast
next
  case (selection_changed h ab h')
  then show ?case using update_inactive by (auto simp: onSelectionChanged_def)
next
  case (converted h ab h')
  then show ?case using convert_deactivates [of ab h] by auto
qed

text \<open>
  C8: no decoration is shown while the session is inactive.  Every call of \<open>convert\<close>
  returns, with \<open>active\<close> false and the decoration set empty, whether or not an edit was
  requested; \<open>deactivate\<close>, the only place where \<open>active\<close> is set to false, empties the
  decoration set; a state left inactive by \<open>update\<close> or \<open>onChanged\<close> has no decoration;
  and in every state a handler can reach, inactive means no decoration.
\<close>

theorem C8_inactive_has_no_decoration:
  "(\<exists>h'. convert ab h = Inr h' \<and> \<not> active h' \<and> decorations h' = [])
   \<and> (\<not> active (deactivate h) \<and> decorations (deactivate h) = [])
   \<and> (\<forall>h'. update ab h i = Inr h' \<and> \<not> active h' \<longrightarrow> decorations h' = [])
   \<and> (\<forall>h'. (\<not> active h \<longrightarrow> decorations h = []) \<and> onChanged ab h ev = Inr h' \<and> \<not> active h'
          \<longrightarrow> decorations h' = [])
   \<and> (reachable g \<and> \<not> active g \<longrightarrow> decorations g = [])"
proof (intro conjI allI impI)
  show "\<exists>h'. convert ab h = Inr h' \<and> \<not> active h' \<and> decorations h' = []"
    using convert_deactivates [of ab h] by blast
  show "\<not> active (deactivate h)" by (simp add: deactivate_def)
  show "decorations (deactivate h) = []" by (simp add: deactivate_def)
  show "decorations h' = []" if "update ab h i = Inr h' \<and> \<not> active h'" for h'
    using that update_inactive by blast
  show "decorations h' = []"
    if "(\<not> active h \<longrightarrow> decorations h = []) \<and> onChanged ab h ev = Inr h' \<and> \<not> active h'" for h'
    using that onChanged_inactive by blast
  show "decorations g = []" if "reachable g \<and> \<not> active g"
    using that reachable_invariant by blast
qed

text \<open>
  The theorem on the state reached by typing a backslash, \<open>a\<close> and a space with the table
  \<open>{"a": "\<alpha>"}\<close>: the replacement has been requested and the session is inactive.
\<close>

theorem C8_witness:
  "reachable \<lparr> active = False, document = [backslash # js ''a ''], selections = [cursor 0 2],
               decorations = [], edits = [Timer [(line_range 0 0 2, Str [0x3B1])]] \<rparr>
   \<and> \<not> active \<lparr> active = False, document = [backslash # js ''a ''], selections = [cursor 0 2],
               decorations = [], edits = [Timer [(line_range 0 0 2, Str [0x3B1])]] \<rparr>
   \<and> decorations \<lparr> active = False, document = [backslash # js ''a ''], selections = [cursor 0 2],
               decorations = [], edits = [Timer [(line_range 0 0 2, Str [0x3B1])]] \<rparr> = []"
proof -
  let ?ab = "\<lparr> leader = [backslash], translations' = [(js ''a'', [0x3B1])],
               customTranslations = [], allTranslations = [(js ''a'', [0x3B1])] \<rparr>"
  let ?h0 = "\<lparr> active = False, document = [[backslash]], selections = [cursor 0 0],
               decorations = [], edits = [] \<rparr>"
  let ?h1 = "\<lparr> active = True, document = [[backslash]], selections = [cursor 0 0],
               decorations = [line_range 0 0 1], edits = [] \<rparr>"
  let ?h2 = "\<lparr> active = True, document = [backslash # js ''a''], selections = [cursor 0 1],
               decorations = [line_range 0 0 1], edits = [] \<rparr>"
  let ?h3 = "\<lparr> active = True, document = [backslash # js ''a''], selections = [cursor 0 1],
               decorations = [line_range 0 0 2], edits = [] \<rparr>"
  let ?h4 = "\<lparr> active = True, document = [backslash # js ''a ''], selections = [cursor 0 2],
               decorations = [line_range 0 0 2], edits = [] \<rparr>"
  let ?g = "\<lparr> active = False, document = [backslash # js ''a ''], selections = [cursor 0 2],
               decorations = [], edits = [Timer [(line_range 0 0 2, Str [0x3B1])]] \<rparr>"
  have r0: "reachable ?h0" by (rule reachable.initial)
  have "onChanged ?ab ?h0 \<lparr> contentChanges = [\<lparr> change_text = [backslash] \<rparr>] \<rparr> = Inr ?h1"
    by (simp add: eval_handler eval_shapes js_def)
  with r0 have r1: "reachable ?h1" by (rule reachable.changed)
  have "reachable (?h1\<lparr>document := [backslash # js ''a''], selections := [cursor 0 1]\<rparr>)"
    using r1 by (rule reachable.host)
  then have r2: "reachable ?h2" by simp
  have "onChanged ?ab ?h2 \<lparr> contentChanges = [\<lparr> change_text = js ''a'' \<rparr>] \<rparr> = Inr ?h3"
    by (simp add: eval_handler eval_shapes js_def)
  with r2 have r3: "reachable ?h3" by (rule reachable.changed)
  have "reachable (?h3\<lparr>document := [backslash # js ''a ''], selections := [cursor 0 2]\<rparr>)"
    using r3 by (rule reachable.host)
  then have r4: "reachable ?h4" by simp
  have "onChanged ?ab ?h4 \<lparr> contentChanges = [\<lparr> change_text = js '' '' \<rparr>] \<rparr> = Inr ?g"
    by (simp add: eval_handler eval_shapes eval_table findReplacement.simps)
  with r4 have r5: "reachable ?g" by (rule reachable.changed)
  from C8_inactive_has_no_decoration [of ?ab ?g 0 "\<lparr> contentChanges = [] \<rparr>" ?g] r5
  show ?thesis by simp
qed

text \<open>
  C2, as amended: on every change event that carries at least one content change and
  in which some selection is not empty, the session is forced inactive, whatever the
  state before (an inactive state showing no decoration): \<open>onChanged\<close> returns, with
  \<open>active\<close> false, the decoration set empty and no span left to report.  The number of
  content changes is not tested: only the first change of the event is read.
\<close>

theorem C2_nonempty_selection_deactivates:
  assumes "contentChanges ev \<noteq> []"
    and "\<exists>s \<in> set (selections h). \<not> isEmpty s"
    and "\<not> active h \<longrightarrow> decorations h = []"
  shows "\<exists>h'. onChanged ab h ev = Inr h' \<and> \<not> active h' \<and> decorations h' = []
           \<and> (\<forall>i. getRangeInfo ab h' i = Inr [])"
proof -
  from assms(1) obtain change cs where ev: "contentChanges ev = change # cs"
    by (cases "contentChanges ev") auto
  have sel: "getRangeInfo ab g i = Inr []" if "selections g = selections h" for g i
    using assms(2) that by (intro getRangeInfo_selection) simp
  have upd: "update ab g i = Inr (deactivate g)" if "selections g = selections h" for g i
    using sel [OF that] by (rule update_no_span)
  have conv: "convert ab h = Inr (deactivate h)"
    using sel [of h 0] by (simp add: convert_no_span)
  have "onChanged ab h ev = Inr (deactivate h) \<or> (\<not> active h \<and> onChanged ab h ev = Inr h)"
    using ev upd conv by (auto simp: onChanged_def deactivate_def)
  then show ?thesis
    using assms(3) by (auto simp: deactivate_def getRangeInfo_inactive)
qed

text \<open>
  The theorem on an active session with a selection over two columns, at a change that
  inserts a space.
\<close>

theorem C2_witness:
  "contentChanges \<lparr> contentChanges = [\<lparr> change_text = js '' '' \<rparr>] \<rparr> \<noteq> []
   \<and> \<not> isEmpty \<lparr> sel_anchor = \<lparr> line = 0, character = 0 \<rparr>,
                   sel_active = \<lparr> line = 0, character = 2 \<rparr> \<rparr>
   \<and> onChanged \<lparr> leader = [backslash], translations' = [], customTranslations = [],
                  allTranslations = [] \<rparr>
        \<lparr> active = True, document = [backslash # js ''a''],
          selections = [\<lparr> sel_anchor = \<lparr> line = 0, character = 0 \<rparr>,
                         sel_active = \<lparr> line = 0, character = 2 \<rparr> \<rparr>],
          decorations = [line_range 0 0 2], edits = [] \<rparr>
        \<lparr> contentChanges = [\<lparr> change_text = js '' '' \<rparr>] \<rparr>
      = Inr \<lparr> active = False, document = [backslash # js ''a''],
          selections = [\<lparr> sel_anchor = \<lparr> line = 0, character = 0 \<rparr>,
                         sel_active = \<lparr> line = 0, character = 2 \<rparr> \<rparr>],
          decorations = [], edits = [] \<rparr>"
  using C2_nonempty_selection_deactivates
     [of "\<lparr> contentChanges = [\<lparr> change_text = js '' '' \<rparr>] \<rparr>"
         "\<lparr> active = True, document = [backslash # js ''a''],
          selections = [\<lparr> sel_anchor = \<lparr> line = 0, character = 0 \<rparr>,
                         sel_active = \<lparr> line = 0, character = 2 \<rparr> \<rparr>],
          decorations = [line_range 0 0 2], edits = [] \<rparr>"
         "\<lparr> leader = [backslash], translations' = [], customTranslations = [],
                  allTranslations = [] \<rparr>"]
  by (simp add: eval_handler eval_shapes js_def)

text \<open>
  C2 as stated fails on the number of content changes: an event with two changes, the
  first the leader, takes an inactive session to active.  An event with no content
  change (auto save) is ignored, also with a selection that is not empty.
\<close>

theorem C2_counterexample:
  "length (contentChanges \<lparr> contentChanges = [\<lparr> change_text = [backslash] \<rparr>,
                                                 \<lparr> change_text = js ''x'' \<rparr>] \<rparr>) > 1
   \<and> onChanged \<lparr> leader = [backslash], translations' = [], customTranslations = [],
                  allTranslations = [] \<rparr>
        \<lparr> active = False, document = [[backslash]], selections = [cursor 0 0],
          decorations = [], edits = [] \<rparr>
        \<lparr> contentChanges = [\<lparr> change_text = [backslash] \<rparr>, \<lparr> change_text = js ''x'' \<rparr>] \<rparr>
      = Inr \<lparr> active = True, document = [[backslash]], selections = [cursor 0 0],
              decorations = [line_range 0 0 1], edits = [] \<rparr>
   \<and> \<not> isEmpty \<lparr> sel_anchor = \<lparr> line = 0, character = 0 \<rparr>,
                   sel_active = \<lparr> line = 0, character = 2 \<rparr> \<rparr>
   \<and> onChanged \<lparr> leader = [backslash], translations' = [], customTranslations = [],
                  allTranslations = [] \<rparr>
        \<lparr> active = True, document = [backslash # js ''a''],
          selections = [\<lparr> sel_anchor = \<lparr> line = 0, character = 0 \<rparr>,
                         sel_active = \<lparr> line = 0, character = 2 \<rparr> \<rparr>],
          decorations = [line_range 0 0 2], edits = [] \<rparr>
        \<lparr> contentChanges = [] \<rparr>
      = Inr \<lparr> active = True, document = [backslash # js ''a''],
          selections = [\<lparr> sel_anchor = \<lparr> line = 0, character = 0 \<rparr>,
                         sel_active = \<lparr> line = 0, character = 2 \<rparr> \<rparr>],
          decorations = [line_range 0 0 2], edits = [] \<rparr>"
  by (simp add: eval_handler eval_shapes js_def)

subsection \<open>The span scanner\<close>

lemma exec_span_Some:
  "exec_span s = Some r \<Longrightarrow>
   \<exists>pre rest. s = pre @ r \<and> r = backslash # rest \<and> (\<forall>c \<in> set rest. \<not> is_space c)"
proof (induction s)
  case Nil
  then show ?case by simp
next
  case (Cons c cs)
  show ?case
  proof (cases "c = backslash \<and> list_all (\<lambda>d. \<not> is_space d) cs")
    case True
    with Cons.prems have "r = c # cs" by simp
    with True show ?thesis by (auto simp: list_all_iff intro: exI [of _ "[]"])
  next
    case False
    with Cons.prems have "exec_span cs = Some r" by auto
    from Cons.IH [OF this] obtain pre rest where
      "cs = pre @ r" "r = backslash # rest" "\<forall>c \<in> set rest. \<not> is_space c" by blast
    then have "c # cs = (c # pre) @ r" by simp
    with \<open>r = backslash # rest\<close> \<open>\<forall>c \<in> set rest. \<not> is_space c\<close> show ?thesis by blast
  qed
qed

lemma exec_span_None:
  "exec_span s = None \<Longrightarrow>
   \<not> (\<exists>pre rest. s = pre @ backslash # rest \<and> (\<forall>c \<in> set rest. \<not> is_space c))"
proof (induction s)
  case Nil
  then show ?case by simp
next
  case (Cons c cs)
  from Cons.prems have nc: "\<not> (c = backslash \<and> list_all (\<lambda>d. \<not> is_space d) cs)"
    and "exec_span cs = None" by (auto split: if_splits)
  from Cons.IH [OF this(2)]
  have IH: "\<not> (\<exists>pre rest. cs = pre @ backslash # rest \<and> (\<forall>c \<in> set rest. \<not> is_space c))" .
  show ?case
  proof
    assume "\<exists>pre rest. c # cs = pre @ backslash # rest \<and> (\<forall>c \<in> set rest. \<not> is_space c)"
    then obtain pre rest where eq: "c # cs = pre @ backslash # rest"
      and ns: "\<forall>c \<in> set rest. \<not> is_space c" by blast
    show False
    proof (cases pre)
      case Nil
      with eq ns nc show False by (auto simp: list_all_iff)
    next
      case (Cons p pre')
      with eq have "cs = pre' @ backslash # rest" by simp
      with ns IH show False by blast
    qed
  qed
qed

lemma exec_span_iff:
  "(exec_span s \<noteq> None) =
   (\<exists>pre rest. s = pre @ backslash # rest \<and> (\<forall>c \<in> set rest. \<not> is_space c))"
proof (cases "exec_span s")
  case None
  then show ?thesis using exec_span_None [OF None] by simp
next
  case (Some r)
  from exec_span_Some [OF Some] show ?thesis using Some by auto
qed

lemma exec_span_no_backslash: "backslash \<notin> set s \<Longrightarrow> exec_span s = None"
  by (induction s) auto

lemma rangeInfo_at_cases:
  assumes "rangeInfo_at h incr i = Inr r"
  shows "(exec_span (beforeCursor h incr i) = None \<and> r = None)
       \<or> (\<exists>ri. r = Some ri \<and> ri_index ri = i \<and> exec_span (beforeCursor h incr i) = Some (ri_text ri))"
  using assms
  by (auto simp: rangeInfo_at_def beforeCursor_def Let_def split: if_splits option.splits)

lemma rangeInfos_indices:
  "rangeInfos h incr ns = Inr ris \<Longrightarrow>
   map ri_index ris = filter (\<lambda>i. exec_span (beforeCursor h incr i) \<noteq> None) ns"
proof (induction ns arbitrary: ris)
  case Nil
  then show ?case by simp
next
  case (Cons n ns)
  from Cons.prems obtain r rs where r: "rangeInfo_at h incr n = Inr r"
    and rs: "rangeInfos h incr ns = Inr rs"
    and ris: "ris = (case r of None \<Rightarrow> rs | Some ri \<Rightarrow> ri # rs)"
    by (auto split: sum.splits)
  from rangeInfo_at_cases [OF r] Cons.IH [OF rs] ris show ?case by auto
qed

lemma getRangeInfo_indices:
  assumes "active h" "\<forall>s \<in> set (selections h). isEmpty s" "getRangeInfo ab h incr = Inr ris"
  shows "map ri_index ris
           = filter (\<lambda>i. exec_span (beforeCursor h incr i) \<noteq> None) [0 ..< length (selections h)]"
proof -
  have "\<not> list_ex (\<lambda>s. \<not> isSingleLine s \<or> \<not> isEmpty s) (selections h)"
    using assms(2) by (auto simp: list_ex_iff isEmpty_def isSingleLine_def)
  with assms(1,3) have "rangeInfos h incr [0 ..< length (selections h)] = Inr ris"
    by (simp add: getRangeInfo_def)
  then show ?thesis by (rule rangeInfos_indices)
qed

lemma getText_subset: "set (getText doc l c1 c2) \<subseteq> \<Union> (set ` set doc)"
proof (cases "l < length doc")
  case True
  have "set (drop c1 (take c2 (doc ! l))) \<subseteq> set (doc ! l)"
    by (meson set_drop_subset set_take_subset subset_trans)
  moreover have "doc ! l \<in> set doc" using True by simp
  ultimately have "set (drop c1 (take c2 (doc ! l))) \<subseteq> \<Union> (set ` set doc)" by blast
  then show ?thesis using True by (simp add: getText_def)
next
  case False
  then show ?thesis by (simp add: getText_def)
qed

lemma activation_without_backslash:
  assumes "\<not> active g" "contentChanges ev = c # cs" "change_text c = leader ab"
    and "\<forall>l \<in> set (document g). backslash \<notin> set l"
  shows "\<exists>g'. onChanged ab g ev = Inr g' \<and> \<not> active g' \<and> decorations g' = []"
proof -
  let ?g = "g\<lparr>active := True\<rparr>"
  from getRangeInfo_nonneg [of 1 ab ?g] obtain ris where ris: "getRangeInfo ab ?g 1 = Inr ris"
    by auto
  have none: "exec_span (beforeCursor ?g 1 i) = None" for i
  proof (rule exec_span_no_backslash)
    show "backslash \<notin> set (beforeCursor ?g 1 i)"
      using getText_subset [of "document g"] assms(4) unfolding beforeCursor_def by fastforce
  qed
  have "ris = []"
  proof (cases "\<forall>s \<in> set (selections ?g). isEmpty s")
    case True
    from getRangeInfo_indices [OF _ True ris] have "map ri_index ris = []"
      by (simp add: none)
    then show ?thesis by simp
  next
    case False
    then have "getRangeInfo ab ?g 1 = Inr []" by (intro getRangeInfo_selection) simp
    with ris show ?thesis by simp
  qed
  with ris have "update ab ?g 1 = Inr (deactivate ?g)" by (simp add: update_no_span)
  with assms(1-3) have "onChanged ab g ev = Inr (deactivate ?g)" by (simp add: onChanged_def)
  then show ?thesis by (simp add: deactivate_def)
qed

text \<open>
  C10, as amended: \<open>getRangeInfo\<close> never reads the leader.  For every leader, in an
  active session whose selections are all empty, it reports a span at a cursor exactly
  when the text before that cursor (moved by \<open>incrCursor\<close>) ends with a backslash
  followed by zero or more characters that are not white space.  So the trigger of an
  activation (the inserted text is the leader) and the scanner can disagree: when no
  line of the document holds a backslash, the activation tracks no span and the session
  is inactive again at once.
\<close>

theorem C10_span_scanner_ignores_leader:
  "getRangeInfo (ab\<lparr>leader := ld\<rparr>) h incr = getRangeInfo ab h incr
   \<and> (active h \<and> (\<forall>s \<in> set (selections h). isEmpty s) \<and> getRangeInfo ab h incr = Inr ris
        \<and> i < length (selections h) \<longrightarrow>
        ((\<exists>ri \<in> set ris. ri_index ri = i) =
         (\<exists>pre rest. beforeCursor h incr i = pre @ backslash # rest
                      \<and> (\<forall>c \<in> set rest. \<not> is_space c))))
   \<and> (\<not> active g \<and> contentChanges ev = c # cs \<and> change_text c = leader ab
        \<and> (\<forall>l \<in> set (document g). backslash \<notin> set l) \<longrightarrow>
        (\<exists>g'. onChanged ab g ev = Inr g' \<and> \<not> active g' \<and> decorations g' = []))"
proof (intro conjI impI)
  show "getRangeInfo (ab\<lparr>leader := ld\<rparr>) h incr = getRangeInfo ab h incr"
    by (simp add: getRangeInfo_def)
next
  assume H: "active h \<and> (\<forall>s \<in> set (selections h). isEmpty s) \<and> getRangeInfo ab h incr = Inr ris
        \<and> i < length (selections h)"
  then have "map ri_index ris
           = filter (\<lambda>i. exec_span (beforeCursor h incr i) \<noteq> None) [0 ..< length (selections h)]"
    by (intro getRangeInfo_indices) auto
  then have "set (map ri_index ris)
           = set (filter (\<lambda>i. exec_span (beforeCursor h incr i) \<noteq> None)
                    [0 ..< length (selections h)])"
    by simp
  then have "(i \<in> ri_index ` set ris)
           = (i < length (selections h) \<and> exec_span (beforeCursor h incr i) \<noteq> None)"
    by simp
  moreover have "(i \<in> ri_index ` set ris) = (\<exists>ri \<in> set ris. ri_index ri = i)"
    by (simp add: image_iff eq_commute Bex_def)
  ultimately have "(\<exists>ri \<in> set ris. ri_index ri = i) = (exec_span (beforeCursor h incr i) \<noteq> None)"
    using H by simp
  then show "(\<exists>ri \<in> set ris. ri_index ri = i) =
         (\<exists>pre rest. beforeCursor h incr i = pre @ backslash # rest
                      \<and> (\<forall>c \<in> set rest. \<not> is_space c))"
    by (simp only: exec_span_iff)
next
  assume "\<not> active g \<and> contentChanges ev = c # cs \<and> change_text c = leader ab
        \<and> (\<forall>l \<in> set (document g). backslash \<notin> set l)"
  then show "\<exists>g'. onChanged ab g ev = Inr g' \<and> \<not> active g' \<and> decorations g' = []"
    using activation_without_backslash by blast
qed


text \<open>
  The theorem with the leader \<open>!\<close>: a span is reported behind a backslash, and typing the
  leader in a document without backslash leaves the session inactive.
\<close>

theorem C10_witness:
  "getRangeInfo
     \<lparr> leader = js ''!'', translations' = [], customTranslations = [], allTranslations = [] \<rparr>
     \<lparr> active = True, document = [backslash # js ''al''], selections = [cursor 0 3],
       decorations = [], edits = [] \<rparr> 0
     = Inr [\<lparr> ri_index = 0, ri_selection = cursor 0 3, ri_range = line_range 0 0 3,
              ri_text = backslash # js ''al'' \<rparr>]
   \<and> (\<exists>pre rest.
         beforeCursor \<lparr> active = True, document = [backslash # js ''al''],
                        selections = [cursor 0 3], decorations = [], edits = [] \<rparr> 0 0
           = pre @ backslash # rest
         \<and> (\<forall>c \<in> set rest. \<not> is_space c))
   \<and> (\<exists>g'. onChanged
           \<lparr> leader = js ''!'', translations' = [], customTranslations = [], allTranslations = [] \<rparr>
           \<lparr> active = False, document = [js ''!''], selections = [cursor 0 0],
             decorations = [], edits = [] \<rparr>
           \<lparr> contentChanges = [\<lparr> change_text = js ''!'' \<rparr>] \<rparr> = Inr g'
         \<and> \<not> active g' \<and> decorations g' = [])"
  using C10_span_scanner_ignores_leader
    [where ab = "\<lparr> leader = js ''!'', translations' = [], customTranslations = [],
                    allTranslations = [] \<rparr>"
       and ld = "[backslash]"
       and h = "\<lparr> active = True, document = [backslash # js ''al''], selections = [cursor 0 3],
                  decorations = [], edits = [] \<rparr>"
       and incr = 0
       and ris = "[\<lparr> ri_index = 0, ri_selection = cursor 0 3, ri_range = line_range 0 0 3,
                     ri_text = backslash # js ''al'' \<rparr>]"
       and i = 0
       and g = "\<lparr> active = False, document = [js ''!''], selections = [cursor 0 0],
                  decorations = [], edits = [] \<rparr>"
       and ev = "\<lparr> contentChanges = [\<lparr> change_text = js ''!'' \<rparr>] \<rparr>"
       and c = "\<lparr> change_text = js ''!'' \<rparr>"
       and cs = "[]"]
  by (simp add: getRangeInfo_def rangeInfo_at_def getText_def is_space_def isEmpty_def
        isSingleLine_def backslash_def eval_shapes js_def)

text \<open>
  C10 as stated fails where a backslash already stands before the cursor: with the
  leader \<open>!\<close> typed after a backslash and \<open>a\<close>, the scanner finds the span from the
  backslash on, and the session stays active with that span decorated.
\<close>

theorem C10_counterexample:
  "leader \<lparr> leader = js ''!'', translations' = [], customTranslations = [], allTranslations = [] \<rparr>
     \<noteq> [backslash]
   \<and> onChanged
        \<lparr> leader = js ''!'', translations' = [], customTranslations = [], allTranslations = [] \<rparr>
        \<lparr> active = False, document = [backslash # js ''a!''], selections = [cursor 0 2],
          decorations = [], edits = [] \<rparr>
        \<lparr> contentChanges = [\<lparr> change_text = js ''!'' \<rparr>] \<rparr>
      = Inr \<lparr> active = True, document = [backslash # js ''a!''], selections = [cursor 0 2],
              decorations = [line_range 0 0 3], edits = [] \<rparr>"
  by (simp add: eval_handler eval_shapes js_def)

subsection \<open>The bracket pairs of \<open>update\<close>\<close>

text \<open>
  The text of every span starts with a backslash, so it is not the name of an inherited
  property: the read \<open>hackyReplacements[ri.text]\<close> of \<open>update\<close> only finds the three keys
  of the table.
\<close>

lemma rangeInfos_texts:
  "rangeInfos h incr ns = Inr ris \<Longrightarrow> ri \<in> set ris \<Longrightarrow> \<exists>rest. ri_text ri = backslash # rest"
proof (induction ns arbitrary: ris)
  case Nil
  then show ?case by simp
next
  case (Cons n ns)
  from Cons.prems(1) obtain r rs where r: "rangeInfo_at h incr n = Inr r"
    and rs: "rangeInfos h incr ns = Inr rs"
    and ris: "ris = (case r of None \<Rightarrow> rs | Some ri \<Rightarrow> ri # rs)"
    by (auto split: sum.splits)
  show ?case
  proof (cases "ri \<in> set rs")
    case True
    with Cons.IH [OF rs] show ?thesis by blast
  next
    case False
    with Cons.prems(2) ris have "r = Some ri" by (cases r) auto
    with rangeInfo_at_cases [OF r]
    have "exec_span (beforeCursor h incr n) = Some (ri_text ri)" by auto
    from exec_span_Some [OF this] show ?thesis by blast
  qed
qed

lemma getRangeInfo_texts:
  assumes "getRangeInfo ab h incr = Inr ris" "ri \<in> set ris"
  shows "(\<exists>rest. ri_text ri = backslash # rest) \<and> ri_text ri \<notin> set inherited_names"
proof -
  from assms have "rangeInfos h incr [0 ..< length (selections h)] = Inr ris"
    by (auto simp: getRangeInfo_def split: if_splits)
  from rangeInfos_texts [OF this assms(2)] obtain rest where "ri_text ri = backslash # rest" ..
  then show ?thesis
    by (auto simp: inherited_names_def js_def backslash_def)
qed

lemma translate_2: "translate e (Suc (Suc 0)) = translate e 2"
  by (simp add: numeral_2_eq_2)

lemma hacky_step_spec:
  "hacky_step ab h ri =
     (case bracket_pair ab h ri of
        None \<Rightarrow> (ri, None)
      | Some (glyphs, n) \<Rightarrow>
          (ri\<lparr>ri_text := [], ri_range := \<lparr> start = between_glyphs ri, end' = between_glyphs ri \<rparr>\<rparr>,
           Some (ri_index ri,
                 \<lparr> start = start (ri_range ri), end' = translate (end' (ri_range ri)) n \<rparr>,
                 glyphs, between_glyphs ri)))"
  by (simp add: hacky_step_def hackyReplacements_def bracket_pair_def textAfter_def
        between_glyphs_def Let_def js_def translate_2)

lemma hacky_step_index:
  "snd (hacky_step ab h ri) = Some (i, rng, repl, pos) \<Longrightarrow>
   i = ri_index ri \<and> pos = translate (start (ri_range ri)) 1"
  by (auto simp: hacky_step_def Let_def split: option.splits if_splits prod.splits)

lemma hacky_step_None:
  "snd (hacky_step ab h ri) = None \<Longrightarrow> fst (hacky_step ab h ri) = ri"
  by (auto simp: hacky_step_def Let_def split: option.splits if_splits prod.splits)


lemma getRangeInfo_nonempty:
  assumes "getRangeInfo ab h incr = Inr ris" "ris \<noteq> []"
  shows "active h \<and> (\<forall>s \<in> set (selections h). isEmpty s)"
proof -
  have "active h" using assms by (rule getRangeInfo_nonempty_active)
  moreover have "\<not> list_ex (\<lambda>s. \<not> isSingleLine s \<or> \<not> isEmpty s) (selections h)"
    using assms by (auto simp: getRangeInfo_def split: if_splits)
  ultimately show ?thesis by (auto simp: list_ex_iff)
qed

lemma getRangeInfo_distinct:
  assumes "getRangeInfo ab h incr = Inr ris" "ris \<noteq> []"
  shows "distinct (map ri_index ris) \<and> (\<forall>ri \<in> set ris. ri_index ri < length (selections h))"
proof -
  from getRangeInfo_nonempty [OF assms]
  have "active h" "\<forall>s \<in> set (selections h). isEmpty s" by auto
  from getRangeInfo_indices [OF this assms(1)]
  have eq: "map ri_index ris
           = filter (\<lambda>i. exec_span (beforeCursor h incr i) \<noteq> None) [0 ..< length (selections h)]" .
  have "distinct (map ri_index ris)" unfolding eq by simp
  moreover have "set (map ri_index ris) \<subseteq> {0 ..< length (selections h)}"
    unfolding eq by auto
  ultimately show ?thesis by auto
qed

lemma place_cursor_apply:
  "place_cursor ss (i, rng, repl, pos) = ss[i := \<lparr> sel_anchor = pos, sel_active = pos \<rparr>]"
  by (simp add: place_cursor_def)

lemma foldl_place_length: "length (foldl place_cursor ss reps) = length ss"
  by (induction reps arbitrary: ss) (auto simp: place_cursor_apply)

lemma foldl_place_other:
  "j \<notin> fst ` set reps \<Longrightarrow> foldl place_cursor ss reps ! j = ss ! j"
proof (induction reps arbitrary: ss)
  case Nil
  then show ?case by simp
next
  case (Cons r reps)
  obtain i rng repl pos where r: "r = (i, rng, repl, pos)" by (cases r)
  with Cons.prems have "j \<noteq> i" "j \<notin> fst ` set reps" by auto
  with Cons.IH [of "place_cursor ss r"] r show ?case
    by (simp add: place_cursor_apply)
qed

lemma foldl_place_hit:
  "distinct (map fst reps) \<Longrightarrow> (i, rng, repl, pos) \<in> set reps \<Longrightarrow> i < length ss \<Longrightarrow>
   foldl place_cursor ss reps ! i = \<lparr> sel_anchor = pos, sel_active = pos \<rparr>"
proof (induction reps arbitrary: ss)
  case Nil
  then show ?case by simp
next
  case (Cons r reps)
  show ?case
  proof (cases "r = (i, rng, repl, pos)")
    case True
    with Cons.prems(1) have "i \<notin> fst ` set reps" by auto
    then have "foldl place_cursor (place_cursor ss r) reps ! i = place_cursor ss r ! i"
      by (rule foldl_place_other)
    with True Cons.prems(3) show ?thesis by (simp add: place_cursor_apply)
  next
    case False
    with Cons.prems have "distinct (map fst reps)" "(i, rng, repl, pos) \<in> set reps" by auto
    moreover have "i < length (place_cursor ss r)"
      using Cons.prems(3) by (cases r) (simp add: place_cursor_apply)
    ultimately have "foldl place_cursor (place_cursor ss r) reps ! i
                     = \<lparr> sel_anchor = pos, sel_active = pos \<rparr>"
      by (rule Cons.IH)
    then show ?thesis by simp
  qed
qed

lemma update_result:
  assumes "getRangeInfo ab h incr = Inr ris" "ris \<noteq> []"
  shows "\<exists>h'. update ab h incr = Inr h' \<and> active h'
     \<and> edits h' = (if List.map_filter (\<lambda>ri. snd (hacky_step ab h ri)) ris = [] then edits h
                   else edits h @ [Edit (map (\<lambda>(i, rng, repl, pos). (rng, Str repl))
                                     (List.map_filter (\<lambda>ri. snd (hacky_step ab h ri)) ris))])
     \<and> selections h' = foldl place_cursor (selections h)
                          (List.map_filter (\<lambda>ri. snd (hacky_step ab h ri)) ris)
     \<and> decorations h' = map (\<lambda>ri. ri_range (fst (hacky_step ab h ri))) ris"
proof -
  have mf: "List.map_filter snd (map (hacky_step ab h) ris)
            = List.map_filter (\<lambda>ri. snd (hacky_step ab h ri)) ris"
    by (simp add: List.map_filter_def filter_map comp_def)
  have "active h" using assms by (rule getRangeInfo_nonempty_active)
  then show ?thesis
    using assms by (simp add: update_def Let_def mf comp_def)
qed

lemma replacements_glyph_edits:
  "map (\<lambda>(i, rng, repl, pos). (rng, Str repl))
     (List.map_filter (\<lambda>ri. snd (hacky_step ab h ri)) ris) = glyph_edits ab h ris"
  by (induction ris)
     (auto simp: List.map_filter_simps hacky_step_spec glyph_edits_def split: option.splits)

text \<open>
  C7: in an active session a change that is neither the leader, nor a completing text,
  nor a deletion goes straight to \<open>update\<close>.  When \<open>update\<close> finds spans (so the session
  is active), it requests at once one edit with the replacements of exactly the spans
  that expand, and none if no span expands: a span whose text is the leader and \<open>{{\<close>
  (or \<open>[[\<close>) expands into the pair U+2983 U+2984 (or U+27E6 U+27E7) only if \<open>}}\<close> (or
  \<open>]]\<close>) follows it, that is follows the cursor as \<open>update\<close> places it, and then the
  closing text is part of the replaced range; a span whose text is the leader and \<open><>\<close>
  expands into the pair U+27E8 U+27E9 with no condition.  The cursor of an expanding
  span is put one column after the start of the span, between the two glyphs; no other
  cursor is moved; a span that does not expand stays decorated.
\<close>

theorem C7_bracket_pairs:
  "(active h \<and> contentChanges ev = c # cs \<and> change_text c \<noteq> leader ab
      \<and> \<not> completes (change_text c) \<and> change_text c \<noteq> [] \<longrightarrow>
    onChanged ab h ev = update ab h (int (length (change_text c))))
   \<and> (getRangeInfo ab h incr = Inr ris \<and> ris \<noteq> [] \<longrightarrow>
       (\<exists>h'. update ab h incr = Inr h' \<and> active h'
          \<and> edits h' = (if glyph_edits ab h ris = [] then edits h
                        else edits h @ [Edit (glyph_edits ab h ris)])
          \<and> length (selections h') = length (selections h)
          \<and> (\<forall>ri \<in> set ris.
                selections h' ! ri_index ri =
                  (if bracket_pair ab h ri = None then selections h ! ri_index ri
                   else \<lparr> sel_anchor = between_glyphs ri, sel_active = between_glyphs ri \<rparr>))
          \<and> (\<forall>j. j \<notin> ri_index ` set ris \<longrightarrow> selections h' ! j = selections h ! j)
          \<and> decorations h' =
               map (\<lambda>ri. if bracket_pair ab h ri = None then ri_range ri
                          else \<lparr> start = between_glyphs ri, end' = between_glyphs ri \<rparr>) ris))"
proof (intro conjI impI)
  assume "active h \<and> contentChanges ev = c # cs \<and> change_text c \<noteq> leader ab
      \<and> \<not> completes (change_text c) \<and> change_text c \<noteq> []"
  then show "onChanged ab h ev = update ab h (int (length (change_text c)))"
    by (simp add: onChanged_def)
next
  assume H: "getRangeInfo ab h incr = Inr ris \<and> ris \<noteq> []"
  then have ris: "getRangeInfo ab h incr = Inr ris" and ne: "ris \<noteq> []" by auto
  let ?reps = "List.map_filter (\<lambda>ri. snd (hacky_step ab h ri)) ris"
  from update_result [OF ris ne] obtain h' where
    upd: "update ab h incr = Inr h'" and act: "active h'"
    and ed: "edits h' = (if ?reps = [] then edits h
                   else edits h @ [Edit (map (\<lambda>(i, rng, repl, pos). (rng, Str repl)) ?reps)])"
    and sel: "selections h' = foldl place_cursor (selections h) ?reps"
    and dec: "decorations h' = map (\<lambda>ri. ri_range (fst (hacky_step ab h ri))) ris"
    by blast
  from getRangeInfo_distinct [OF ris ne]
  have dist: "distinct (map ri_index ris)"
    and lt: "\<forall>ri \<in> set ris. ri_index ri < length (selections h)"
    by auto
  have fst_reps: "map fst ?reps = map ri_index (filter (\<lambda>ri. snd (hacky_step ab h ri) \<noteq> None) ris)"
    unfolding List.map_filter_def
    by (auto simp: comp_def dest: hacky_step_index)
  have dreps: "distinct (map fst ?reps)"
    unfolding fst_reps using dist by (rule distinct_map_filter)
  have empty: "(?reps = []) = (glyph_edits ab h ris = [])"
    using replacements_glyph_edits [of ab h ris] by (metis map_is_Nil_conv)
  have E: "edits h' = (if glyph_edits ab h ris = [] then edits h
                        else edits h @ [Edit (glyph_edits ab h ris)])"
    using ed by (simp add: empty replacements_glyph_edits)
  have L: "length (selections h') = length (selections h)"
    unfolding sel by (rule foldl_place_length)
  have S: "selections h' ! ri_index ri =
                  (if bracket_pair ab h ri = None then selections h ! ri_index ri
                   else \<lparr> sel_anchor = between_glyphs ri, sel_active = between_glyphs ri \<rparr>)"
    if ri: "ri \<in> set ris" for ri
  proof (cases "bracket_pair ab h ri")
    case None
    then have none: "snd (hacky_step ab h ri) = None" by (simp add: hacky_step_spec)
    have "ri_index ri \<notin> fst ` set ?reps"
    proof
      assume "ri_index ri \<in> fst ` set ?reps"
      then have "ri_index ri \<in> set (map fst ?reps)" by simp
      then obtain rj where rj: "rj \<in> set ris" "snd (hacky_step ab h rj) \<noteq> None"
        "ri_index rj = ri_index ri"
        unfolding fst_reps by auto
      with dist ri have "rj = ri" by (auto simp: distinct_map inj_on_def)
      with rj none show False by simp
    qed
    then have "selections h' ! ri_index ri = selections h ! ri_index ri"
      unfolding sel by (rule foldl_place_other)
    with None show ?thesis by simp
  next
    case (Some p)
    obtain glyphs n where p: "p = (glyphs, n)" by (cases p)
    let ?r = "(ri_index ri,
               \<lparr> start = start (ri_range ri), end' = translate (end' (ri_range ri)) n \<rparr>,
               glyphs, between_glyphs ri)"
    have "snd (hacky_step ab h ri) = Some ?r"
      using Some p by (simp add: hacky_step_spec)
    then have mem: "?r \<in> set ?reps"
      using ri by (force simp: List.map_filter_def)
    have "selections h' ! ri_index ri
            = \<lparr> sel_anchor = between_glyphs ri, sel_active = between_glyphs ri \<rparr>"
      unfolding sel using dreps mem lt ri by (intro foldl_place_hit) auto
    with Some show ?thesis by simp
  qed
  have O: "selections h' ! j = selections h ! j" if "j \<notin> ri_index ` set ris" for j
  proof -
    have "set (map fst ?reps) \<subseteq> ri_index ` set ris"
      unfolding fst_reps by auto
    with that have "j \<notin> fst ` set ?reps" by auto
    then show ?thesis unfolding sel by (rule foldl_place_other)
  qed
  have D: "decorations h' =
               map (\<lambda>ri. if bracket_pair ab h ri = None then ri_range ri
                          else \<lparr> start = between_glyphs ri, end' = between_glyphs ri \<rparr>) ris"
    unfolding dec by (rule map_cong) (auto simp: hacky_step_spec split: option.splits)
  show "\<exists>h'. update ab h incr = Inr h' \<and> active h'
          \<and> edits h' = (if glyph_edits ab h ris = [] then edits h
                        else edits h @ [Edit (glyph_edits ab h ris)])
          \<and> length (selections h') = length (selections h)
          \<and> (\<forall>ri \<in> set ris.
                selections h' ! ri_index ri =
                  (if bracket_pair ab h ri = None then selections h ! ri_index ri
                   else \<lparr> sel_anchor = between_glyphs ri, sel_active = between_glyphs ri \<rparr>))
          \<and> (\<forall>j. j \<notin> ri_index ` set ris \<longrightarrow> selections h' ! j = selections h ! j)
          \<and> decorations h' =
               map (\<lambda>ri. if bracket_pair ab h ri = None then ri_range ri
                          else \<lparr> start = between_glyphs ri, end' = between_glyphs ri \<rparr>) ris"
    using upd act E L S O D by blast
qed

text \<open>
  The theorem on three lines: a backslash and \<open>{{\<close> followed by \<open>}}\<close>, the same followed
  by a space, and a backslash and \<open><>\<close>.
\<close>

theorem C7_witness:
  "onChanged \<lparr> leader = [backslash], translations' = [], customTranslations = [], allTranslations = [] \<rparr>
     \<lparr> active = True, document = [backslash # js ''{{}}''], selections = [cursor 0 2],
       decorations = [line_range 0 0 2], edits = [] \<rparr>
     \<lparr> contentChanges = [\<lparr> change_text = js ''{'' \<rparr>] \<rparr>
   = Inr \<lparr> active = True, document = [backslash # js ''{{}}''], selections = [cursor 0 1],
           decorations = [line_range 0 1 1],
           edits = [Edit [(line_range 0 0 5, Str [0x2983, 0x2984])]] \<rparr>
   \<and> glyph_edits
       \<lparr> leader = [backslash], translations' = [], customTranslations = [], allTranslations = [] \<rparr>
       \<lparr> active = True, document = [backslash # js ''{{}}''], selections = [cursor 0 2],
         decorations = [line_range 0 0 2], edits = [] \<rparr>
       [\<lparr> ri_index = 0, ri_selection = cursor 0 2, ri_range = line_range 0 0 3,
          ri_text = backslash # js ''{{'' \<rparr>]
     = [(line_range 0 0 5, Str [0x2983, 0x2984])]
   \<and> update \<lparr> leader = [backslash], translations' = [], customTranslations = [], allTranslations = [] \<rparr>
     \<lparr> active = True, document = [backslash # js ''{{ x''], selections = [cursor 0 2],
       decorations = [line_range 0 0 2], edits = [] \<rparr> 1
   = Inr \<lparr> active = True, document = [backslash # js ''{{ x''], selections = [cursor 0 2],
           decorations = [line_range 0 0 3], edits = [] \<rparr>
   \<and> update \<lparr> leader = [backslash], translations' = [], customTranslations = [], allTranslations = [] \<rparr>
     \<lparr> active = True, document = [js ''f '' @ backslash # js ''<>''], selections = [cursor 0 4],
       decorations = [line_range 0 2 4], edits = [] \<rparr> 1
   = Inr \<lparr> active = True, document = [js ''f '' @ backslash # js ''<>''], selections = [cursor 0 3],
           decorations = [line_range 0 3 3],
           edits = [Edit [(line_range 0 2 5, Str [0x27E8, 0x27E9])]] \<rparr>"
proof -
  let ?ab = "\<lparr> leader = [backslash], translations' = [], customTranslations = [],
               allTranslations = [] \<rparr>"
  let ?h = "\<lparr> active = True, document = [backslash # js ''{{}}''], selections = [cursor 0 2],
              decorations = [line_range 0 0 2], edits = [] \<rparr>"
  let ?ris = "[\<lparr> ri_index = 0, ri_selection = cursor 0 2, ri_range = line_range 0 0 3,
                 ri_text = backslash # js ''{{'' \<rparr>]"
  let ?ev = "\<lparr> contentChanges = [\<lparr> change_text = js ''{'' \<rparr>] \<rparr>"
  let ?H = "\<lparr> active = True, document = [backslash # js ''{{}}''], selections = [cursor 0 1],
              decorations = [line_range 0 1 1],
              edits = [Edit [(line_range 0 0 5, Str [0x2983, 0x2984])]] \<rparr>"
  have G: "getRangeInfo ?ab ?h 1 = Inr ?ris"
    by (simp add: getRangeInfo_def rangeInfo_at_def getText_def is_space_def isEmpty_def
          isSingleLine_def backslash_def eval_shapes js_def)
  have U: "update ?ab ?h 1 = Inr ?H"
    by (simp add: eval_handler eval_shapes js_def Let_def)
  have C: "active ?h \<and> contentChanges ?ev = \<lparr> change_text = js ''{'' \<rparr> # []
           \<and> change_text \<lparr> change_text = js ''{'' \<rparr> \<noteq> leader ?ab
           \<and> \<not> completes (change_text \<lparr> change_text = js ''{'' \<rparr>)
           \<and> change_text \<lparr> change_text = js ''{'' \<rparr> \<noteq> []"
    by (simp add: completes_def is_space_def backslash_def js_def)
  note inst = C7_bracket_pairs [where ab = ?ab and h = ?h and incr = 1 and ris = ?ris
      and ev = ?ev and c = "\<lparr> change_text = js ''{'' \<rparr>" and cs = "[]"]
  from inst C have "onChanged ?ab ?h ?ev
                   = update ?ab ?h (int (length (change_text \<lparr> change_text = js ''{'' \<rparr>)))"
    by blast
  then have 1: "onChanged ?ab ?h ?ev = Inr ?H"
    using U by (simp add: js_def)
  from inst G obtain h' where "update ?ab ?h 1 = Inr h'"
    and "edits h' = (if glyph_edits ?ab ?h ?ris = [] then edits ?h
                     else edits ?h @ [Edit (glyph_edits ?ab ?h ?ris)])"
    by blast
  with U have 2: "glyph_edits ?ab ?h ?ris = [(line_range 0 0 5, Str [0x2983, 0x2984])]"
    by (auto split: if_splits)
  have 3: "update ?ab
     \<lparr> active = True, document = [backslash # js ''{{ x''], selections = [cursor 0 2],
       decorations = [line_range 0 0 2], edits = [] \<rparr> 1
   = Inr \<lparr> active = True, document = [backslash # js ''{{ x''], selections = [cursor 0 2],
           decorations = [line_range 0 0 3], edits = [] \<rparr>"
    by (simp add: eval_handler eval_shapes js_def Let_def)
  have 4: "update ?ab
     \<lparr> active = True, document = [js ''f '' @ backslash # js ''<>''], selections = [cursor 0 4],
       decorations = [line_range 0 2 4], edits = [] \<rparr> 1
   = Inr \<lparr> active = True, document = [js ''f '' @ backslash # js ''<>''], selections = [cursor 0 3],
           decorations = [line_range 0 3 3],
           edits = [Edit [(line_range 0 2 5, Str [0x27E8, 0x27E9])]] \<rparr>"
    by (simp add: eval_handler eval_shapes js_def Let_def)
  from 1 2 3 4 show ?thesis by blast
qed

end
